theory Spec2Isabelle
  imports Main
begin

section \<open>Board model of \<open>ps3/utils.py\<close>\<close>

text \<open>
  A tile is a Python \<open>str\<close> (\<open>"B"\<close>, \<open>"W"\<close> or \<open>"_"\<close>), a board a list of rows
  (\<open>Board = list[list[str]]\<close>), a position a pair of unbounded Python integers and
  a move a pair of positions.  The functions of this section work on the value of a board;
  the section on the object store treats the identity of the list objects.
\<close>

type_synonym tile = string
type_synonym board = "tile list list"
type_synonym pos = "int \<times> int"
type_synonym move = "pos \<times> pos"

text \<open>The exceptions that can leave the functions modelled here.\<close>

datatype error = IndexError | ValueError | AgentException

definition ROW :: int where
  "ROW = 6"

definition COL :: int where
  "COL = 6"

definition MOVE_NONE :: move where
  "MOVE_NONE = ((- 1, - 1), (- 1, - 1))"

definition generate_init_state :: board where
  "generate_init_state =
     [[''B'', ''B'', ''B'', ''B'', ''B'', ''B''],
      [''B'', ''B'', ''B'', ''B'', ''B'', ''B''],
      [''_'', ''_'', ''_'', ''_'', ''_'', ''_''],
      [''_'', ''_'', ''_'', ''_'', ''_'', ''_''],
      [''W'', ''W'', ''W'', ''W'', ''W'', ''W''],
      [''W'', ''W'', ''W'', ''W'', ''W'', ''W'']]"

text \<open>
  Python subscription \<open>xs[i]\<close>: a negative index counts from the end, an index out of
  range raises \<open>IndexError\<close>.  \<open>norm_index\<close> is the position really accessed.
\<close>

definition norm_index :: "nat \<Rightarrow> int \<Rightarrow> nat option" where
  "norm_index n i =
     (let j = (if i < 0 then i + int n else i)
      in if 0 \<le> j \<and> j < int n then Some (nat j) else None)"

definition subscript :: "'a list \<Rightarrow> int \<Rightarrow> error + 'a" where
  "subscript xs i =
     (case norm_index (length xs) i of None \<Rightarrow> Inl IndexError | Some j \<Rightarrow> Inr (xs ! j))"

text \<open>The expression \<open>board[r][c]\<close>.\<close>

definition cell :: "board \<Rightarrow> int \<Rightarrow> int \<Rightarrow> error + tile" where
  "cell board r c =
     (case subscript board r of Inl e \<Rightarrow> Inl e | Inr row \<Rightarrow> subscript row c)"

text \<open>
  \<open>is_valid_move\<close>, check by check.  The last two conditions read the destination cell
  only when the left operand of their \<open>and\<close> holds, as Python's short-circuit evaluation does.
\<close>

definition is_valid_move :: "board \<Rightarrow> pos \<Rightarrow> pos \<Rightarrow> error + bool" where
  "is_valid_move board src dst =
     (case src of (sr, sc) \<Rightarrow> case dst of (dr, dc) \<Rightarrow>
        (case cell board sr sc of
           Inl e \<Rightarrow> Inl e
         | Inr t \<Rightarrow>
             if t \<noteq> ''B'' then Inr False
             else if dr < 0 \<or> dr \<ge> ROW \<or> dc < 0 \<or> dc \<ge> COL then Inr False
             else if dr \<noteq> sr + 1 then Inr False
             else if dc > sc + 1 \<or> dc < sc - 1 then Inr False
             else
               (case (if dc = sc
                      then (case cell board dr dc of Inl e \<Rightarrow> Inl e | Inr u \<Rightarrow> Inr (u \<noteq> ''_''))
                      else Inr False) of
                  Inl e \<Rightarrow> Inl e
                | Inr blocked \<Rightarrow>
                    if blocked then Inr False
                    else
                      (case (if dc = sc + 1 \<or> dc = sc - 1
                             then (case cell board dr dc of
                                     Inl e \<Rightarrow> Inl e | Inr u \<Rightarrow> Inr (u = ''B''))
                             else Inr False) of
                         Inl e \<Rightarrow> Inl e
                       | Inr own \<Rightarrow> if own then Inr False else Inr True))))"

text \<open>The data model's board: exactly six rows of exactly six tiles.\<close>

definition is_board :: "board \<Rightarrow> bool" where
  "is_board b \<longleftrightarrow> length b = 6 \<and> list_all (\<lambda>row. length row = 6) b"

definition in_grid :: "pos \<Rightarrow> bool" where
  "in_grid p \<longleftrightarrow> 0 \<le> fst p \<and> fst p < ROW \<and> 0 \<le> snd p \<and> snd p < COL"

text \<open>The tile at an in-grid position of a board.\<close>

definition tile_at :: "board \<Rightarrow> pos \<Rightarrow> tile" where
  "tile_at b p = b ! nat (fst p) ! nat (snd p)"

text \<open>
  \<open>invert_board\<close>: \<open>board.reverse()\<close>, then every tile \<open>"W"\<close> becomes \<open>"B"\<close> and every
  tile \<open>"B"\<close> becomes \<open>"W"\<close>; \<open>swap_tile\<close> is the body of the inner loop.  This is the value
  of the board the call returns when the rows are six separate list objects.
\<close>

definition swap_tile :: "tile \<Rightarrow> tile" where
  "swap_tile t = (if t = ''W'' then ''B'' else if t = ''B'' then ''W'' else t)"

definition invert_board :: "board \<Rightarrow> board" where
  "invert_board board = map (map swap_tile) (rev board)"

text \<open>
  The assignments \<open>xs[i] = v\<close> and \<open>board[r][c] = v\<close>, with Python's index rules.
\<close>

definition assign :: "'a list \<Rightarrow> int \<Rightarrow> 'a \<Rightarrow> error + 'a list" where
  "assign xs i v =
     (case norm_index (length xs) i of None \<Rightarrow> Inl IndexError | Some j \<Rightarrow> Inr (xs[j := v]))"

definition set_cell :: "board \<Rightarrow> int \<Rightarrow> int \<Rightarrow> tile \<Rightarrow> error + board" where
  "set_cell board r c v =
     (case norm_index (length board) r of
        None \<Rightarrow> Inl IndexError
      | Some i \<Rightarrow>
          (case assign (board ! i) c v of
             Inl e \<Rightarrow> Inl e
           | Inr row \<Rightarrow> Inr (board[i := row])))"

text \<open>
  \<open>state_change\<close>: an exception of \<open>is_valid_move\<close> propagates; a valid move clears the
  source and then writes \<open>"B"\<close> to the destination; any other move returns the board as it is.
  As for \<open>invert_board\<close>, this is the value of the board the call returns when the rows
  are separate list objects; \<open>state_change_st\<close> below is the call on the object store,
  where a row object may occur in several rows.
\<close>

definition state_change :: "board \<Rightarrow> pos \<Rightarrow> pos \<Rightarrow> error + board" where
  "state_change board src dst =
     (case is_valid_move board src dst of
        Inl e \<Rightarrow> Inl e
      | Inr valid \<Rightarrow>
          if valid
          then (case src of (sr, sc) \<Rightarrow> case dst of (dr, dc) \<Rightarrow>
                  (case set_cell board sr sc ''_'' of
                     Inl e \<Rightarrow> Inl e
                   | Inr board1 \<Rightarrow> set_cell board1 dr dc ''B''))
          else Inr board)"

text \<open>
  \<open>is_game_over\<close>.  The accumulator of the counting loops is the pair
  \<open>(wcount, bcount)\<close>.
\<close>

fun count_row :: "tile list \<Rightarrow> nat \<times> nat \<Rightarrow> nat \<times> nat" where
  "count_row [] acc = acc"
| "count_row (tile # row) (wcount, bcount) =
     (if tile = ''B'' then count_row row (wcount, bcount + 1)
      else if tile = ''W'' then count_row row (wcount + 1, bcount)
      else count_row row (wcount, bcount))"

fun count_pawns :: "board \<Rightarrow> nat \<times> nat \<Rightarrow> nat \<times> nat" where
  "count_pawns [] acc = acc"
| "count_pawns (row # rows) acc = count_pawns rows (count_row row acc)"

definition is_game_over :: "board \<Rightarrow> error + bool" where
  "is_game_over board =
     (case subscript board 5 of
        Inl e \<Rightarrow> Inl e
      | Inr last_row \<Rightarrow>
          if list_ex (\<lambda>tile. tile = ''B'') last_row then Inr True
          else
            (case subscript board 0 of
               Inl e \<Rightarrow> Inl e
             | Inr first_row \<Rightarrow>
                 if list_ex (\<lambda>tile. tile = ''W'') first_row then Inr True
                 else (case count_pawns board (0, 0) of
                         (wcount, bcount) \<Rightarrow> Inr (bcount = 0 \<or> wcount = 0))))"

text \<open>
  \<open>generate_rand_move\<close>: the loop over \<open>d in (-1, 0, 1)\<close>, the loop over the tiles of a
  row (the counters of \<open>enumerate\<close> are natural numbers) and the loop over the rows.  \<open>None\<close>
  means the loop ended without a \<open>return\<close>; the final \<open>raise\<close> is \<open>ValueError\<close>.
\<close>

fun try_offsets :: "board \<Rightarrow> pos \<Rightarrow> int list \<Rightarrow> error + move option" where
  "try_offsets board src [] = Inr None"
| "try_offsets board src (d # ds) =
     (let dst = (fst src + 1, snd src + d)
      in case is_valid_move board src dst of
           Inl e \<Rightarrow> Inl e
         | Inr valid \<Rightarrow> if valid then Inr (Some (src, dst)) else try_offsets board src ds)"

fun scan_row :: "board \<Rightarrow> nat \<Rightarrow> nat \<Rightarrow> tile list \<Rightarrow> error + move option" where
  "scan_row board r c [] = Inr None"
| "scan_row board r c (tile # row) =
     (if tile \<noteq> ''B'' then scan_row board r (Suc c) row
      else (case try_offsets board (int r, int c) [- 1, 0, 1] of
              Inl e \<Rightarrow> Inl e
            | Inr None \<Rightarrow> scan_row board r (Suc c) row
            | Inr (Some m) \<Rightarrow> Inr (Some m)))"

fun scan_rows :: "board \<Rightarrow> nat \<Rightarrow> tile list list \<Rightarrow> error + move option" where
  "scan_rows board r [] = Inr None"
| "scan_rows board r (row # rows) =
     (case scan_row board r 0 row of
        Inl e \<Rightarrow> Inl e
      | Inr None \<Rightarrow> scan_rows board (Suc r) rows
      | Inr (Some m) \<Rightarrow> Inr (Some m))"

definition generate_rand_move :: "board \<Rightarrow> error + move" where
  "generate_rand_move board =
     (case scan_rows board 0 board of
        Inl e \<Rightarrow> Inl e
      | Inr None \<Rightarrow> Inl ValueError
      | Inr (Some m) \<Rightarrow> Inr m)"

text \<open>
  The row and column of the list elements that a subscription \<open>board[r][c]\<close> reaches, if any.
\<close>

definition locate :: "board \<Rightarrow> pos \<Rightarrow> (nat \<times> nat) option" where
  "locate b p =
     (case norm_index (length b) (fst p) of
        None \<Rightarrow> None
      | Some i \<Rightarrow>
          (case norm_index (length (b ! i)) (snd p) of
             None \<Rightarrow> None
           | Some j \<Rightarrow> Some (i, j)))"

text \<open>
  The order of the scan in the words of the specification: the cells in row-major order
  and, for a cell holding \<open>"B"\<close>, the destinations one row down at column offset \<open>-1\<close>,
  \<open>0\<close>, \<open>+1\<close>.  \<open>spec_candidates\<close> lists the moves in that order and
  \<open>spec_first_valid\<close> is the first of them that \<open>is_valid_move\<close> accepts.
\<close>

definition pawn_moves :: "pos \<Rightarrow> move list" where
  "pawn_moves src = map (\<lambda>d. (src, (fst src + 1, snd src + d))) [- 1, 0, 1]"

definition row_candidates :: "nat \<Rightarrow> (nat \<times> tile) list \<Rightarrow> move list" where
  "row_candidates r cts =
     concat (map (\<lambda>(c, tile). if tile = ''B'' then pawn_moves (int r, int c) else []) cts)"

definition spec_candidates :: "board \<Rightarrow> move list" where
  "spec_candidates b =
     concat (map (\<lambda>r. row_candidates r (map (\<lambda>c. (c, b ! r ! c)) [0..<6])) [0..<6])"

definition accepts :: "board \<Rightarrow> move \<Rightarrow> bool" where
  "accepts b m \<longleftrightarrow> is_valid_move b (fst m) (snd m) = Inr True"

definition spec_first_valid :: "board \<Rightarrow> error + move" where
  "spec_first_valid b =
     (case find (accepts b) (spec_candidates b) of
        None \<Rightarrow> Inl ValueError
      | Some m \<Rightarrow> Inr m)"

text \<open>A board on which Black has reached the last row.\<close>

definition won_board :: board where
  "won_board =
     [[''_'', ''_'', ''_'', ''_'', ''_'', ''_''],
      [''_'', ''_'', ''_'', ''_'', ''_'', ''_''],
      [''_'', ''_'', ''_'', ''_'', ''_'', ''_''],
      [''_'', ''_'', ''_'', ''_'', ''_'', ''_''],
      [''_'', ''W'', ''_'', ''_'', ''_'', ''_''],
      [''_'', ''_'', ''B'', ''_'', ''_'', ''_'']]"

text \<open>
  Modelled from the spec: the end-to-end self-play loop of the testable properties (the
  source has no such loop; its steps \<open>is_game_over\<close>, \<open>generate_rand_move\<close> and
  \<open>state_change\<close> are the source's).  Each round checks \<open>is_game_over\<close> first; \<open>fuel\<close>
  bounds the number of moves, \<open>Inr None\<close> means the bound was reached with the game still
  running, and the number returned is the number of moves made.
\<close>

fun self_play :: "nat \<Rightarrow> board \<Rightarrow> error + (nat \<times> board) option" where
  "self_play fuel board =
     (case is_game_over board of
        Inl e \<Rightarrow> Inl e
      | Inr over \<Rightarrow>
          if over then Inr (Some (0, board))
          else (case fuel of
                  0 \<Rightarrow> Inr None
                | Suc n \<Rightarrow>
                    (case generate_rand_move board of
                       Inl e \<Rightarrow> Inl e
                     | Inr (src, dst) \<Rightarrow>
                         (case state_change board src dst of
                            Inl e \<Rightarrow> Inl e
                          | Inr board' \<Rightarrow>
                              (case self_play n board' of
                                 Inl e \<Rightarrow> Inl e
                               | Inr None \<Rightarrow> Inr None
                               | Inr (Some (k, final)) \<Rightarrow> Inr (Some (Suc k, final)))))))"

text \<open>The board on which the self-play from the initial board ends.\<close>

definition self_play_final :: board where
  "self_play_final =
     [[''_'', ''_'', ''_'', ''_'', ''_'', ''_''],
      [''_'', ''_'', ''_'', ''_'', ''_'', ''_''],
      [''_'', ''_'', ''_'', ''_'', ''_'', ''_''],
      [''B'', ''B'', ''B'', ''B'', ''B'', ''B''],
      [''_'', ''B'', ''B'', ''B'', ''B'', ''B''],
      [''W'', ''B'', ''W'', ''W'', ''W'', ''W'']]"

section \<open>The object store and the \<open>in_place\<close> flag\<close>

text \<open>
  A board is a Python list object whose elements are references to row list objects, and
  \<open>invert_board\<close> and \<open>state_change\<close> mutate these objects.  The store holds the two
  kinds of list object; a reference is an index into it, so an object is allocated by
  appending it and a reference not below the length of the store is unallocated.
  Strings are immutable and are kept as values.
\<close>

type_synonym ref = nat

record store =
  outer_lists :: "ref list list"
  row_lists :: "tile list list"

text \<open>The value of the board object \<open>a\<close>: the rows its references lead to.\<close>

definition board_at :: "store \<Rightarrow> ref \<Rightarrow> board" where
  "board_at h a = map (\<lambda>r. row_lists h ! r) (outer_lists h ! a)"

text \<open>The board object \<open>a\<close> is allocated and so is every row it refers to.\<close>

definition wf_board :: "store \<Rightarrow> ref \<Rightarrow> bool" where
  "wf_board h a \<longleftrightarrow>
     a < length (outer_lists h) \<and>
     list_all (\<lambda>r. r < length (row_lists h)) (outer_lists h ! a)"

text \<open>
  \<open>copy.deepcopy(board)\<close>: a new outer list and, for each row object, a new list with the
  same strings.  The memo maps a row object already copied to its copy, so a row object
  that occurs twice in the board is copied once.
\<close>

fun copy_rows ::
  "(ref \<times> ref) list \<Rightarrow> tile list list \<Rightarrow> ref list \<Rightarrow> ref list \<times> tile list list" where
  "copy_rows memo rs [] = ([], rs)"
| "copy_rows memo rs (r # refs) =
     (case map_of memo r of
        Some r' \<Rightarrow>
          (case copy_rows memo rs refs of (out, rs') \<Rightarrow> (r' # out, rs'))
      | None \<Rightarrow>
          (case copy_rows ((r, length rs) # memo) (rs @ [rs ! r]) refs of
             (out, rs') \<Rightarrow> (length rs # out, rs')))"

definition deepcopy :: "store \<Rightarrow> ref \<Rightarrow> store \<times> ref" where
  "deepcopy h a =
     (case copy_rows [] (row_lists h) (outer_lists h ! a) of
        (out, rs') \<Rightarrow>
          (\<lparr>outer_lists = outer_lists h @ [out], row_lists = rs'\<rparr>, length (outer_lists h)))"

text \<open>
  \<open>invert_board(board, in_place)\<close> on the store: \<open>board.reverse()\<close> reverses the outer
  list object; the loops then visit the row references in the new order and swap the
  colours of the row object each one leads to.
\<close>

definition swap_row :: "ref \<Rightarrow> tile list list \<Rightarrow> tile list list" where
  "swap_row r rs = rs[r := map swap_tile (rs ! r)]"

definition invert_in_place :: "store \<Rightarrow> ref \<Rightarrow> store" where
  "invert_in_place h a =
     (let refs = rev (outer_lists h ! a)
      in \<lparr>outer_lists = (outer_lists h)[a := refs],
          row_lists = fold swap_row refs (row_lists h)\<rparr>)"

definition invert_board_st :: "store \<Rightarrow> ref \<Rightarrow> bool \<Rightarrow> store \<times> ref" where
  "invert_board_st h board in_place =
     (case (if \<not> in_place then deepcopy h board else (h, board)) of
        (h1, board1) \<Rightarrow> (invert_in_place h1 board1, board1))"


text \<open>
  \<open>state_change(board, src, dst, in_place)\<close> on the store.  \<open>is_valid_move\<close> only reads
  the board; the two assignments \<open>board[r][c] = v\<close> write to the row object that the
  outer list refers to at \<open>r\<close>.
\<close>

definition store_cell :: "store \<Rightarrow> ref \<Rightarrow> int \<Rightarrow> int \<Rightarrow> tile \<Rightarrow> error + store" where
  "store_cell h a r c v =
     (case subscript (outer_lists h ! a) r of
        Inl e \<Rightarrow> Inl e
      | Inr row_ref \<Rightarrow>
          (case assign (row_lists h ! row_ref) c v of
             Inl e \<Rightarrow> Inl e
           | Inr row \<Rightarrow> Inr (h\<lparr>row_lists := (row_lists h)[row_ref := row]\<rparr>)))"

definition state_change_st ::
  "store \<Rightarrow> ref \<Rightarrow> pos \<Rightarrow> pos \<Rightarrow> bool \<Rightarrow> error + store \<times> ref" where
  "state_change_st h board src dst in_place =
     (case (if \<not> in_place then deepcopy h board else (h, board)) of
        (h1, board1) \<Rightarrow>
          (case is_valid_move (board_at h1 board1) src dst of
             Inl e \<Rightarrow> Inl e
           | Inr valid \<Rightarrow>
               if valid
               then (case store_cell h1 board1 (fst src) (snd src) ''_'' of
                       Inl e \<Rightarrow> Inl e
                     | Inr h2 \<Rightarrow>
                         (case store_cell h2 board1 (fst dst) (snd dst) ''B'' of
                            Inl e \<Rightarrow> Inl e
                          | Inr h3 \<Rightarrow> Inr (h3, board1)))
               else Inr (h1, board1)))"

text \<open>
  What a call may do to the store it starts from.  \<open>preserves h h'\<close>: every object of \<open>h\<close>
  is in \<open>h'\<close> with the same content.  \<open>fresh_board h h' a\<close>: the board object \<open>a\<close> of
  \<open>h'\<close> and all its rows are objects that \<open>h\<close> does not have.  \<open>only_board_changed h h' a\<close>:
  \<open>h'\<close> has the objects of \<open>h\<close>, and they differ at most in the board object \<open>a\<close> and
  the rows it refers to.
\<close>

definition preserves :: "store \<Rightarrow> store \<Rightarrow> bool" where
  "preserves h h' \<longleftrightarrow>
     take (length (outer_lists h)) (outer_lists h') = outer_lists h \<and>
     take (length (row_lists h)) (row_lists h') = row_lists h"

definition fresh_board :: "store \<Rightarrow> store \<Rightarrow> ref \<Rightarrow> bool" where
  "fresh_board h h' a \<longleftrightarrow>
     length (outer_lists h) \<le> a \<and> a < length (outer_lists h') \<and>
     list_all (\<lambda>r. length (row_lists h) \<le> r \<and> r < length (row_lists h'))
       (outer_lists h' ! a)"

definition only_board_changed :: "store \<Rightarrow> store \<Rightarrow> ref \<Rightarrow> bool" where
  "only_board_changed h h' a \<longleftrightarrow>
     length (outer_lists h') = length (outer_lists h) \<and>
     length (row_lists h') = length (row_lists h) \<and>
     list_all (\<lambda>b. b = a \<or> outer_lists h' ! b = outer_lists h ! b)
       [0..<length (outer_lists h)] \<and>
     list_all (\<lambda>r. r \<in> set (outer_lists h ! a) \<or> row_lists h' ! r = row_lists h ! r)
       [0..<length (row_lists h)]"

text \<open>A store holding the initial board, for the examples.\<close>

definition init_store :: store where
  "init_store = \<lparr>outer_lists = [[0, 1, 2, 3, 4, 5]], row_lists = generate_init_state\<rparr>"

text \<open>
  A store holding a six-by-six board built from two row objects: the first fills rows 0
  and 1, the second rows 2 to 5 (as \<open>[top, top, rest, rest, rest, rest]\<close> builds it).
\<close>

definition shared_store :: store where
  "shared_store =
     \<lparr>outer_lists = [[0, 0, 1, 1, 1, 1]],
      row_lists = [[''B'', ''B'', ''B'', ''B'', ''B'', ''B''],
                   [''_'', ''_'', ''_'', ''_'', ''_'', ''_'']]\<rparr>"

text \<open>
  The two halves of the \<open>in_place\<close> contract, for a call on the board object \<open>a\<close> of the
  store \<open>h\<close> that ends in the store \<open>fst res\<close> and returns the reference \<open>snd res\<close>.
\<close>

definition returns_copy :: "store \<Rightarrow> ref \<Rightarrow> store \<times> ref \<Rightarrow> bool" where
  "returns_copy h a res \<longleftrightarrow>
     snd res \<noteq> a \<and> preserves h (fst res) \<and> fresh_board h (fst res) (snd res) \<and>
     board_at (fst res) a = board_at h a"

definition returns_same :: "store \<Rightarrow> ref \<Rightarrow> store \<times> ref \<Rightarrow> bool" where
  "returns_same h a res \<longleftrightarrow> snd res = a \<and> only_board_changed h (fst res) a"

definition board_of :: "store \<times> ref \<Rightarrow> board" where
  "board_of res = board_at (fst res) (snd res)"

section \<open>The match driver \<open>play\<close>\<close>

text \<open>
  The two sides, \<open>colors = (black, white)\<close>, and what \<open>play\<close> returns: a boolean or a
  failure string.
\<close>

datatype colour = Black | White

datatype outcome = Won bool | Failure string

definition colour_name :: "colour \<Rightarrow> string" where
  "colour_name c = (case c of Black \<Rightarrow> ''Black(Student agent)'' | White \<Rightarrow> ''White(Test agent)'')"

text \<open>
  Black's \<open>make_move\<close> runs in a separate process on \<open>copy.deepcopy(board)\<close>; the driver
  sees only the exit code of that process and what it put in the queue:
  \<^item> exit code \<open>None\<close>: still running after \<open>join(timeout=3)\<close>;
  \<^item> exit code \<open>1\<close>: the queue holds the exception (here its text) when \<open>make_move\<close>
    raised an \<open>Exception\<close>; it holds nothing when the process ended otherwise with that
    code (a \<open>SystemExit\<close> out of the agent, for one);
  \<^item> exit code \<open>0\<close>: the queue holds the move, or nothing when the process left through
    \<open>exit()\<close> (after a \<open>KeyboardInterrupt\<close>, or a \<open>SystemExit\<close> out of the agent);
  \<^item> any other exit code.
  A move in the queue is a pair of integer pairs, as the type \<open>Move\<close> says.
  The job is given the store after the copy was made and the reference of the copy; it
  cannot change the driver's store.  An agent is a function of the move counter too, so it
  may answer differently at every turn.
\<close>

datatype job =
  Job_Timeout | Job_Exit_1 "string option" | Job_Exit_0 "move option" | Job_Other_Exit

type_synonym black_agent = "nat \<Rightarrow> store \<Rightarrow> ref \<Rightarrow> job"

text \<open>
  White's \<open>make_move\<close> is called directly on the driver's board object, without a time
  limit: it may never return, it may raise, and it may have changed any object by the time
  it returns or raises, so the store it leaves is part of its result.
\<close>

datatype white_result =
  White_Hangs | White_Raised store error | White_Returned store move

type_synonym white_agent = "nat \<Rightarrow> store \<Rightarrow> ref \<Rightarrow> white_result"

text \<open>
  The local variables of \<open>play\<close>, with the store and the reference of the board object.
  \<open>color\<close> is \<open>None\<close> until the first turn.  \<open>invocations\<close> is not in the source: it
  counts the calls of \<open>make_move\<close> and is increased where the call is made.
\<close>

record play_state =
  st_store :: store
  st_board :: ref
  st_move :: nat
  st_random_moves :: nat
  st_color :: "colour option"
  invocations :: nat

text \<open>
  How one pass through the loop body ends: with an exception leaving \<open>play\<close>, with a
  \<open>return\<close>, blocked forever, or at the end of the body.
\<close>

datatype turn_result =
  Raises error play_state | Returns outcome play_state | Blocks | Continues play_state

text \<open>
  The end of the loop body, shared by both sides: \<open>state_change(board, src, dst)\<close> in
  place, the inversion back in place after White's move, \<open>move += 1\<close>.
\<close>

definition apply_move :: "play_state \<Rightarrow> colour \<Rightarrow> move \<Rightarrow> turn_result" where
  "apply_move s c m =
     (case state_change_st (st_store s) (st_board s) (fst m) (snd m) True of
        Inl e \<Rightarrow> Raises e s
      | Inr res \<Rightarrow>
          Continues (s\<lparr>st_store := (if c = White
                                     then fst (invert_board_st (fst res) (st_board s) True)
                                     else fst res),
                       st_move := st_move s + 1\<rparr>))"

text \<open>
  White's turn: the board is inverted in place, the agent is called on it, and its move is
  taken as it is; an exception of the agent leaves \<open>play\<close>.
\<close>

definition white_turn :: "white_agent \<Rightarrow> play_state \<Rightarrow> turn_result" where
  "white_turn player s =
     (let h1 = fst (invert_board_st (st_store s) (st_board s) True)
      in case player (st_move s) h1 (st_board s) of
           White_Hangs \<Rightarrow> Blocks
         | White_Raised h2 e \<Rightarrow>
             Raises e (s\<lparr>st_store := h2, invocations := invocations s + 1\<rparr>)
         | White_Returned h2 m \<Rightarrow>
             apply_move (s\<lparr>st_store := h2, invocations := invocations s + 1\<rparr>) White m)"

text \<open>
  Black's turn.  The move stays \<open>MOVE_NONE\<close> unless the job exited with code \<open>0\<close>;
  with exit code \<open>1\<close> the driver returns the failure string; with exit code \<open>0\<close> or
  \<open>1\<close> and an empty queue it blocks in \<open>result_queue.get()\<close>, which has no timeout.
  An exception of \<open>is_valid_move\<close> counts as invalid; an invalid move is replaced by
  \<open>generate_rand_move(board)\<close>, whose \<open>ValueError\<close> is not caught.
\<close>

definition black_turn :: "black_agent \<Rightarrow> play_state \<Rightarrow> turn_result" where
  "black_turn player s =
     (case deepcopy (st_store s) (st_board s) of
        (h1, board_copy) \<Rightarrow>
          (let s1 = s\<lparr>st_store := h1, invocations := invocations s + 1\<rparr>;
               board = board_at h1 (st_board s)
           in case player (st_move s) h1 board_copy of
                Job_Exit_1 None \<Rightarrow> Blocks
              | Job_Exit_1 (Some e) \<Rightarrow>
                  Returns
                    (Failure (colour_name Black @ '' returned err='' @ e @ '' during move''))
                    s1
              | Job_Exit_0 None \<Rightarrow> Blocks
              | j \<Rightarrow>
                  (let m = (case j of Job_Exit_0 (Some m') \<Rightarrow> m' | _ \<Rightarrow> MOVE_NONE);
                       is_valid = (case is_valid_move board (fst m) (snd m) of
                                     Inl e \<Rightarrow> False
                                   | Inr v \<Rightarrow> v)
                   in if \<not> is_valid
                      then (let s2 = s1\<lparr>st_random_moves := st_random_moves s + 1\<rparr>
                            in case generate_rand_move board of
                                 Inl e \<Rightarrow> Raises e s2
                               | Inr m' \<Rightarrow> apply_move s2 Black m')
                      else apply_move s1 Black m)))"

text \<open>The head of the loop body: \<open>color = colors[move % 2]\<close> and the branch on it.\<close>

definition play_turn :: "black_agent \<Rightarrow> white_agent \<Rightarrow> play_state \<Rightarrow> turn_result" where
  "play_turn playerAI_A playerAI_B s =
     (let c = (if st_move s mod 2 = 1 then White else Black);
          s0 = s\<lparr>st_color := Some c\<rparr>
      in if c = White then white_turn playerAI_B s0 else black_turn playerAI_A s0)"

text \<open>
  The loop \<open>while not is_game_over(board)\<close> and the final \<open>return color == black\<close>.
  The two \<open>try\<close> blocks before the loop only append the agents to a list, which cannot
  fail; they and the redirection of the output streams are left out.
  The result is \<open>None\<close> when \<open>play\<close> never returns (the loop runs forever, or a turn
  blocks); otherwise it is the exception that left \<open>play\<close> or the value returned, each
  with the final state, whose store is what the caller finds after the call.
\<close>

partial_function (option) play_loop ::
  "black_agent \<Rightarrow> white_agent \<Rightarrow> play_state \<Rightarrow>
     (error \<times> play_state + outcome \<times> play_state) option" where
  "play_loop playerAI_A playerAI_B s =
     (case is_game_over (board_at (st_store s) (st_board s)) of
        Inl e \<Rightarrow> Some (Inl (e, s))
      | Inr over \<Rightarrow>
          if over then Some (Inr (Won (st_color s = Some Black), s))
          else (case play_turn playerAI_A playerAI_B s of
                  Raises e s' \<Rightarrow> Some (Inl (e, s'))
                | Returns r s' \<Rightarrow> Some (Inr (r, s'))
                | Blocks \<Rightarrow> None
                | Continues s' \<Rightarrow> play_loop playerAI_A playerAI_B s'))"

definition start_state :: "store \<Rightarrow> ref \<Rightarrow> play_state" where
  "start_state h board =
     \<lparr>st_store = h, st_board = board, st_move = 0, st_random_moves = 0, st_color = None,
      invocations = 0\<rparr>"

definition play ::
  "black_agent \<Rightarrow> white_agent \<Rightarrow> store \<Rightarrow> ref \<Rightarrow>
     (error \<times> play_state + outcome \<times> play_state) option" where
  "play playerAI_A playerAI_B h board = play_loop playerAI_A playerAI_B (start_state h board)"

text \<open>
  The board the driver holds, and the outcomes of Black's job that leave the driver
  without a move that \<open>is_valid_move\<close> accepts on it: a timeout, an exit code other than
  \<open>0\<close> and \<open>1\<close>, or a move that is rejected or makes \<open>is_valid_move\<close> raise.
\<close>

definition current_board :: "play_state \<Rightarrow> board" where
  "current_board s = board_at (st_store s) (st_board s)"


text \<open>
  Agents, boards and states for the examples: a Black agent whose job always times out,
  one that always answers with a move across the board, one whose \<open>make_move\<close> raises,
  one whose process exits without a result, a White agent that always answers
  \<open>MOVE_NONE\<close> and leaves the board alone, the board after Black's first move from the
  initial board, and a state in which White is to move on it.
\<close>

definition timeout_black :: black_agent where
  "timeout_black n h board = Job_Timeout"




definition idle_white :: white_agent where
  "idle_white n h board = White_Returned h MOVE_NONE"

definition after_first_move :: board where
  "after_first_move =
     [[''B'', ''B'', ''B'', ''B'', ''B'', ''B''],
      [''_'', ''B'', ''B'', ''B'', ''B'', ''B''],
      [''B'', ''_'', ''_'', ''_'', ''_'', ''_''],
      [''_'', ''_'', ''_'', ''_'', ''_'', ''_''],
      [''W'', ''W'', ''W'', ''W'', ''W'', ''W''],
      [''W'', ''W'', ''W'', ''W'', ''W'', ''W'']]"


definition won_store :: store where
  "won_store = \<lparr>outer_lists = [[0, 1, 2, 3, 4, 5]], row_lists = won_board\<rparr>"

section \<open>Properties\<close>

lemma norm_index_nonneg: "0 \<le> i \<Longrightarrow> i < int n \<Longrightarrow> norm_index n i = Some (nat i)"
  by (simp add: norm_index_def)

lemma is_board_row: "is_board b \<Longrightarrow> i < 6 \<Longrightarrow> length (b ! i) = 6"
  by (simp add: is_board_def list_all_length)

lemma cell_in_grid:
  assumes "is_board b" "in_grid p"
  shows "cell b (fst p) (snd p) = Inr (tile_at b p)"
proof -
  from assms have r: "0 \<le> fst p" "fst p < 6" and c: "0 \<le> snd p" "snd p < 6"
    by (simp_all add: in_grid_def ROW_def COL_def)
  from assms(1) have len: "length b = 6" by (simp add: is_board_def)
  from r have "nat (fst p) < 6" by simp
  with assms(1) have rowlen: "length (b ! nat (fst p)) = 6" by (rule is_board_row)
  have "subscript b (fst p) = Inr (b ! nat (fst p))"
    using r len by (simp add: subscript_def norm_index_nonneg)
  moreover have "subscript (b ! nat (fst p)) (snd p) = Inr (b ! nat (fst p) ! nat (snd p))"
    using c rowlen by (simp add: subscript_def norm_index_nonneg)
  ultimately show ?thesis by (simp add: cell_def tile_at_def)
qed

lemma valid_move_in_grid:
  assumes "is_board b" and "in_grid src"
  shows "is_valid_move b src dst =
           Inr (tile_at b src = ''B'' \<and> in_grid dst \<and> fst dst = fst src + 1 \<and>
                \<bar>snd dst - snd src\<bar> \<le> 1 \<and>
                (snd dst = snd src \<longrightarrow> tile_at b dst = ''_'') \<and>
                (snd dst \<noteq> snd src \<longrightarrow> tile_at b dst \<noteq> ''B''))"
proof -
  have src: "cell b (fst src) (snd src) = Inr (tile_at b src)"
    using assms by (rule cell_in_grid)
  show ?thesis
  proof (cases "in_grid dst")
    case True
    with assms(1) have dst: "cell b (fst dst) (snd dst) = Inr (tile_at b dst)"
      by (rule cell_in_grid)
    from True have bounds: "\<not> (fst dst < 0 \<or> fst dst \<ge> ROW \<or> snd dst < 0 \<or> snd dst \<ge> COL)"
      by (auto simp add: in_grid_def)
    show ?thesis
      using src dst bounds True
      by (cases src, cases dst) (auto simp add: is_valid_move_def)
  next
    case False
    then have "fst dst < 0 \<or> fst dst \<ge> ROW \<or> snd dst < 0 \<or> snd dst \<ge> COL"
      by (auto simp add: in_grid_def)
    with src False show ?thesis
      by (cases src, cases dst) (auto simp add: is_valid_move_def)
  qed
qed

text \<open>
  C1.  On a six-by-six board and for a source inside the grid, \<open>is_valid_move\<close> returns
  normally, and returns \<open>True\<close> exactly when the source cell holds \<open>"B"\<close>, the destination
  is inside the grid, one row below the source and at most one column aside, a straight
  advance lands on \<open>"_"\<close> and a diagonal advance lands on a tile other than \<open>"B"\<close>.
\<close>

theorem is_valid_move_iff:
  assumes "is_board b" and "in_grid src"
  shows "is_valid_move b src dst =
           Inr (tile_at b src = ''B'' \<and> in_grid dst \<and> fst dst = fst src + 1 \<and>
                \<bar>snd dst - snd src\<bar> \<le> 1 \<and>
                (snd dst = snd src \<longrightarrow> tile_at b dst = ''_'') \<and>
                (snd dst \<noteq> snd src \<longrightarrow> tile_at b dst \<noteq> ''B''))"
  using assms by (rule valid_move_in_grid)

theorem is_valid_move_iff_witness:
  "is_board generate_init_state \<and> in_grid (1, 0) \<and>
   is_valid_move generate_init_state (1, 0) (2, 0) = Inr True \<and>
   is_valid_move generate_init_state (0, 0) (1, 1) = Inr False"
  using is_valid_move_iff [of generate_init_state "(1, 0)" "(2, 0)"]
        is_valid_move_iff [of generate_init_state "(0, 0)" "(1, 1)"]
  by (simp add: is_board_def in_grid_def generate_init_state_def tile_at_def ROW_def COL_def)

lemma norm_index_less: "norm_index n i = Some j \<Longrightarrow> j < n"
  by (auto simp add: norm_index_def Let_def split: if_splits)

lemma cell_locate:
  "cell b r c = (case locate b (r, c) of None \<Rightarrow> Inl IndexError | Some (i, j) \<Rightarrow> Inr (b ! i ! j))"
  by (simp add: cell_def subscript_def locate_def split: option.splits)

lemma locate_less: "locate b p = Some (i, j) \<Longrightarrow> i < length b \<and> j < length (b ! i)"
  by (auto simp add: locate_def dest: norm_index_less split: option.splits)

lemma set_cell_locate:
  "set_cell b r c v =
     (case locate b (r, c) of
        None \<Rightarrow> Inl IndexError
      | Some (i, j) \<Rightarrow> Inr (b[i := (b ! i)[j := v]]))"
  by (simp add: set_cell_def assign_def locate_def split: option.splits)

lemma locate_update:
  assumes "i < length b"
  shows "locate (b[i := (b ! i)[j := v]]) p = locate b p"
proof -
  have "length ((b[i := (b ! i)[j := v]]) ! k) = length (b ! k)" for k
    using assms by (cases "k = i") simp_all
  then show ?thesis by (simp add: locate_def cong: option.case_cong)
qed



lemma valid_move_cells:
  assumes "is_valid_move b src dst = Inr True"
  shows "cell b (fst src) (snd src) = Inr ''B''"
    and "\<exists>u. cell b (fst dst) (snd dst) = Inr u \<and> u \<noteq> ''B''"
  using assms
  by (cases src; cases dst;
      auto simp add: is_valid_move_def split: sum.splits if_splits)+

lemma valid_move_locate:
  assumes "is_valid_move b src dst = Inr True"
  shows "\<exists>i j k l. locate b src = Some (i, j) \<and> locate b dst = Some (k, l) \<and> (i, j) \<noteq> (k, l)
           \<and> b ! i ! j = ''B''"
proof -
  from valid_move_cells [OF assms] obtain u where
    s: "cell b (fst src) (snd src) = Inr ''B''" and
    d: "cell b (fst dst) (snd dst) = Inr u" and u: "u \<noteq> ''B''" by blast
  from s obtain i j where ij: "locate b src = Some (i, j)" "b ! i ! j = ''B''"
    by (auto simp add: cell_locate split: option.splits)
  from d obtain k l where kl: "locate b dst = Some (k, l)" "b ! k ! l = u"
    by (auto simp add: cell_locate split: option.splits)
  from ij kl u have "(i, j) \<noteq> (k, l)" by auto
  with ij kl show ?thesis by blast
qed

lemma state_change_valid:
  assumes v: "is_valid_move b src dst = Inr True"
    and s: "locate b src = Some (i, j)" and d: "locate b dst = Some (k, l)"
  shows "state_change b src dst = Inr ((b[i := (b ! i)[j := ''_'']])[k :=
           ((b[i := (b ! i)[j := ''_'']]) ! k)[l := ''B'']])"
proof -
  let ?b1 = "b[i := (b ! i)[j := ''_'']]"
  from s have i: "i < length b" by (simp add: locate_less)
  have 1: "set_cell b (fst src) (snd src) ''_'' = Inr ?b1"
    using s by (simp add: set_cell_locate)
  have "locate ?b1 dst = Some (k, l)" using d i by (simp add: locate_update)
  then have 2: "set_cell ?b1 (fst dst) (snd dst) ''B'' = Inr (?b1[k := (?b1 ! k)[l := ''B'']])"
    by (simp add: set_cell_locate)
  show ?thesis using v 1 2
    by (cases src; cases dst) (simp add: state_change_def)
qed

lemma state_change_cells:
  "(is_valid_move b src dst = Inr True \<longrightarrow>
      (\<exists>b'. state_change b src dst = Inr b' \<and>
            cell b' (fst src) (snd src) = Inr ''_'' \<and>
            cell b' (fst dst) (snd dst) = Inr ''B'' \<and>
            (\<forall>p. locate b p \<noteq> locate b src \<and> locate b p \<noteq> locate b dst \<longrightarrow>
                 cell b' (fst p) (snd p) = cell b (fst p) (snd p)))) \<and>
   (is_valid_move b src dst = Inr False \<longrightarrow> state_change b src dst = Inr b)"
proof (intro conjI impI)
  assume v: "is_valid_move b src dst = Inr True"
  from valid_move_locate [OF v] obtain i j k l where
    s: "locate b src = Some (i, j)" and d: "locate b dst = Some (k, l)" and
    ne: "(i, j) \<noteq> (k, l)" by blast
  let ?b1 = "b[i := (b ! i)[j := ''_'']]"
  let ?b2 = "?b1[k := (?b1 ! k)[l := ''B'']]"
  from s have i: "i < length b" "j < length (b ! i)" by (simp_all add: locate_less)
  from d have k: "k < length b" "l < length (b ! k)" by (simp_all add: locate_less)
  have k1: "k < length ?b1" using k by simp
  have loc1: "locate ?b1 p = locate b p" for p using i by (simp add: locate_update)
  have loc2: "locate ?b2 p = locate b p" for p
    using locate_update [OF k1, of l "''B''" p] loc1 by simp
  have get: "?b2 ! m ! n = (if (m, n) = (k, l) then ''B'' else if (m, n) = (i, j) then ''_''
                            else b ! m ! n)"
    if "m < length b" "n < length (b ! m)" for m n
    using that i k by (auto simp add: nth_list_update)
  have cellp: "cell ?b2 (fst p) (snd p) =
      (case locate b p of None \<Rightarrow> Inl IndexError
       | Some (m, n) \<Rightarrow> Inr (if (m, n) = (k, l) then ''B'' else if (m, n) = (i, j) then ''_''
                            else b ! m ! n))" for p
  proof (cases "locate b p")
    case None
    then show ?thesis using loc2 [of p] cell_locate [of ?b2 "fst p" "snd p"] by simp
  next
    case (Some mn)
    obtain m n where mn: "mn = (m, n)" by (cases mn)
    with Some have "m < length b" "n < length (b ! m)" by (simp_all add: locate_less)
    from get [OF this] Some mn show ?thesis
      using loc2 [of p] cell_locate [of ?b2 "fst p" "snd p"] by simp
  qed
  have sc: "state_change b src dst = Inr ?b2" using v s d by (rule state_change_valid)
  have "cell ?b2 (fst src) (snd src) = Inr ''_''" using cellp [of src] s ne by auto
  moreover have "cell ?b2 (fst dst) (snd dst) = Inr ''B''" using cellp [of dst] d by simp
  moreover have "cell ?b2 (fst p) (snd p) = cell b (fst p) (snd p)"
    if "locate b p \<noteq> locate b src \<and> locate b p \<noteq> locate b dst" for p
    using that cellp [of p] s d cell_locate [of b "fst p" "snd p"]
    by (auto split: option.splits)
  ultimately show "\<exists>b'. state_change b src dst = Inr b' \<and>
            cell b' (fst src) (snd src) = Inr ''_'' \<and>
            cell b' (fst dst) (snd dst) = Inr ''B'' \<and>
            (\<forall>p. locate b p \<noteq> locate b src \<and> locate b p \<noteq> locate b dst \<longrightarrow>
                 cell b' (fst p) (snd p) = cell b (fst p) (snd p))"
    using sc by blast
next
  assume "is_valid_move b src dst = Inr False"
  then show "state_change b src dst = Inr b" by (simp add: state_change_def)
qed

lemma count_row_eq:
  "count_row row (w, k) = (w + count_list row ''W'', k + count_list row ''B'')"
  by (induction row arbitrary: w k) simp_all

lemma count_pawns_eq:
  "count_pawns rows (w, k) =
     (w + count_list (concat rows) ''W'', k + count_list (concat rows) ''B'')"
proof (induction rows arbitrary: w k)
  case Nil
  show ?case by simp
next
  case (Cons row rows)
  have cl: "count_list (xs @ ys) x = count_list xs x + count_list ys x"
    for xs ys :: "tile list" and x
    by (induction xs) simp_all
  show ?case by (simp add: count_row_eq Cons.IH cl)
qed

lemma subscript_in_range:
  "0 \<le> i \<Longrightarrow> i < int (length xs) \<Longrightarrow> subscript xs i = Inr (xs ! nat i)"
  by (simp add: subscript_def norm_index_nonneg)

lemma is_game_over_board:
  assumes "is_board b"
  shows "is_game_over b =
           Inr (''B'' \<in> set (b ! 5) \<or> ''W'' \<in> set (b ! 0) \<or>
                count_list (concat b) ''B'' = 0 \<or> count_list (concat b) ''W'' = 0)"
proof -
  from assms have len: "length b = 6" by (simp add: is_board_def)
  have 5: "subscript b 5 = Inr (b ! 5)" using len subscript_in_range [of 5 b] by simp
  have 0: "subscript b 0 = Inr (b ! 0)" using len subscript_in_range [of 0 b] by simp
  have ex: "list_ex (\<lambda>tile. tile = t) row \<longleftrightarrow> t \<in> set row" for t :: tile and row
    by (auto simp add: list_ex_iff)
  show ?thesis
    by (auto simp add: is_game_over_def 5 0 ex count_pawns_eq)
qed

lemma init_not_over: "is_game_over generate_init_state = Inr False"
  by code_simp

lemma is_board_init: "is_board generate_init_state"
  by code_simp

text \<open>
  C3.  On a six-by-six board \<open>is_game_over\<close> returns \<open>True\<close> exactly when the last row
  holds a \<open>"B"\<close>, or the first row holds a \<open>"W"\<close>, or no tile of the board is \<open>"B"\<close>, or no
  tile of the board is \<open>"W"\<close>; on the initial board it returns \<open>False\<close>.
\<close>

theorem is_game_over_iff:
  assumes "is_board b"
  shows "is_game_over b =
           Inr (''B'' \<in> set (b ! 5) \<or> ''W'' \<in> set (b ! 0) \<or>
                count_list (concat b) ''B'' = 0 \<or> count_list (concat b) ''W'' = 0) \<and>
         is_game_over generate_init_state = Inr False"
  using assms by (simp add: is_game_over_board init_not_over)

theorem is_game_over_iff_witness:
  "is_board won_board \<and> ''B'' \<in> set (won_board ! 5) \<and> is_game_over won_board = Inr True \<and>
   is_game_over generate_init_state = Inr False"
proof -
  have b: "is_board won_board" by code_simp
  have m: "''B'' \<in> set (won_board ! 5)" by (simp add: won_board_def)
  from is_game_over_iff [OF b] m b show ?thesis by simp
qed


lemma is_valid_move_errorD:
  "is_valid_move b src dst = Inl e \<Longrightarrow>
     cell b (fst src) (snd src) = Inl e \<or> (in_grid dst \<and> cell b (fst dst) (snd dst) = Inl e)"
  by (cases src; cases dst)
     (auto simp add: is_valid_move_def in_grid_def split: sum.splits if_splits)

lemma locate_board:
  assumes "is_board b"
  shows "locate b (r, c) = None \<longleftrightarrow> \<not> (- 6 \<le> r \<and> r < 6 \<and> - 6 \<le> c \<and> c < 6)"
proof -
  from assms have len: "length b = 6" by (simp add: is_board_def)
  have n: "norm_index 6 i = None \<longleftrightarrow> \<not> (- 6 \<le> i \<and> i < 6)" for i
    by (auto simp add: norm_index_def)
  show ?thesis
  proof (cases "norm_index 6 r")
    case None
    with n [of r] len show ?thesis by (auto simp add: locate_def)
  next
    case (Some i)
    then have "i < 6" by (rule norm_index_less)
    with assms have "length (b ! i) = 6" by (rule is_board_row)
    with Some n [of r] n [of c] len show ?thesis
      by (auto simp add: locate_def split: option.splits)
  qed
qed

lemma is_valid_move_error_iff:
  assumes "is_board b"
  shows "is_valid_move b src dst = Inl IndexError \<longleftrightarrow>
           \<not> (- 6 \<le> fst src \<and> fst src < 6 \<and> - 6 \<le> snd src \<and> snd src < 6)"
proof (cases "- 6 \<le> fst src \<and> fst src < 6 \<and> - 6 \<le> snd src \<and> snd src < 6")
  case True
  with locate_board [OF assms, of "fst src" "snd src"]
  have t: "cell b (fst src) (snd src) \<noteq> Inl IndexError"
    by (auto simp add: cell_locate split: option.splits)
  have "is_valid_move b src dst \<noteq> Inl IndexError"
  proof
    assume "is_valid_move b src dst = Inl IndexError"
    from is_valid_move_errorD [OF this] t
    have "in_grid dst" and "cell b (fst dst) (snd dst) = Inl IndexError" by simp_all
    with cell_in_grid [OF assms, of dst] show False by simp
  qed
  with True show ?thesis by simp
next
  case False
  with locate_board [OF assms, of "fst src" "snd src"]
  have "cell b (fst src) (snd src) = Inl IndexError"
    by (simp add: cell_locate)
  then have "is_valid_move b src dst = Inl IndexError"
    by (cases src; cases dst) (simp add: is_valid_move_def)
  with False show ?thesis by simp
qed

lemma is_valid_move_only_IndexError: "is_valid_move b src dst = Inl e \<Longrightarrow> e = IndexError"
  by (cases src; cases dst)
     (auto simp add: is_valid_move_def cell_def subscript_def
           split: sum.splits if_splits option.splits)

text \<open>
  C9.  On a six-by-six board \<open>is_valid_move\<close> returns a boolean for every source inside
  the grid and every destination.  It raises exactly when the source row or column lies
  outside \<open>[-6, 6)\<close>, the range Python accepts as an index of a list of six: the source
  cell is read before any check.
\<close>

theorem is_valid_move_total:
  assumes "is_board b"
  shows "(in_grid src \<longrightarrow> (\<exists>v. is_valid_move b src dst = Inr v)) \<and>
         ((\<exists>e. is_valid_move b src dst = Inl e) \<longleftrightarrow>
            \<not> (- 6 \<le> fst src \<and> fst src < 6 \<and> - 6 \<le> snd src \<and> snd src < 6))"
proof -
  have 2: "(\<exists>e. is_valid_move b src dst = Inl e) \<longleftrightarrow>
            \<not> (- 6 \<le> fst src \<and> fst src < 6 \<and> - 6 \<le> snd src \<and> snd src < 6)"
    using is_valid_move_error_iff [OF assms, of src dst]
          is_valid_move_only_IndexError [of b src dst] by blast
  have "\<exists>v. is_valid_move b src dst = Inr v" if "in_grid src"
  proof -
    from that have "- 6 \<le> fst src \<and> fst src < 6 \<and> - 6 \<le> snd src \<and> snd src < 6"
      by (simp add: in_grid_def ROW_def COL_def)
    with 2 have "\<not> (\<exists>e. is_valid_move b src dst = Inl e)" by simp
    then show ?thesis by (cases "is_valid_move b src dst") simp_all
  qed
  with 2 show ?thesis by blast
qed

theorem is_valid_move_total_witness:
  "is_board generate_init_state \<and> in_grid (1, 0) \<and>
   (\<exists>v. is_valid_move generate_init_state (1, 0) (7, - 3) = Inr v) \<and>
   (\<exists>e. is_valid_move generate_init_state (6, 0) (7, 0) = Inl e) \<and>
   (\<exists>e. is_valid_move generate_init_state (0, - 7) (1, 0) = Inl e)"
proof -
  have b: "is_board generate_init_state" by code_simp
  have g: "in_grid (1, 0)" by code_simp
  from is_valid_move_total [OF b, of "(1, 0)" "(7, - 3)"]
       is_valid_move_total [OF b, of "(6, 0)" "(7, 0)"]
       is_valid_move_total [OF b, of "(0, - 7)" "(1, 0)"] b g
  show ?thesis by simp
qed

lemma try_offsets_find:
  assumes "is_board b" "in_grid src"
  shows "try_offsets b src ds =
           Inr (find (accepts b) (map (\<lambda>d. (src, (fst src + 1, snd src + d))) ds))"
proof (induction ds)
  case Nil
  show ?case by simp
next
  case (Cons d ds)
  from valid_move_in_grid [OF assms, of "(fst src + 1, snd src + d)"]
  obtain v where "is_valid_move b src (fst src + 1, snd src + d) = Inr v" by blast
  with Cons show ?case by (simp add: accepts_def)
qed

lemma find_append_cases:
  "find P (xs @ ys) = (case find P xs of None \<Rightarrow> find P ys | Some x \<Rightarrow> Some x)"
  by (induction xs) simp_all

lemma scan_row_find:
  assumes "is_board b" "r < 6"
  shows "c + length row \<le> 6 \<Longrightarrow>
           scan_row b r c row = Inr (find (accepts b) (row_candidates r (enumerate c row)))"
proof (induction row arbitrary: c)
  case Nil
  show ?case by (simp add: row_candidates_def)
next
  case (Cons tile row)
  from Cons.prems have c: "c < 6" and rest: "Suc c + length row \<le> 6" by simp_all
  have rc: "row_candidates r ((c, t) # cts) =
              (if t = ''B'' then pawn_moves (int r, int c) else []) @ row_candidates r cts"
    for cts t by (simp add: row_candidates_def)
  from assms(2) c have g: "in_grid (int r, int c)" by (simp add: in_grid_def ROW_def COL_def)
  have t: "try_offsets b (int r, int c) [- 1, 0, 1] =
             Inr (find (accepts b) (pawn_moves (int r, int c)))"
    using try_offsets_find [OF assms(1) g, of "[- 1, 0, 1]"] by (simp add: pawn_moves_def)
  show ?case
  proof (cases "tile = ''B''")
    case False
    with Cons.IH [OF rest] show ?thesis by (simp add: rc)
  next
    case True
    have step: "scan_row b r c (tile # row) =
            (case find (accepts b) (pawn_moves (int r, int c)) of
               None \<Rightarrow> scan_row b r (Suc c) row
             | Some m \<Rightarrow> Inr (Some m))"
      unfolding scan_row.simps t using True by (simp split: option.splits)
    show ?thesis unfolding step using Cons.IH [OF rest] True
      by (simp add: rc find_append_cases split: option.splits)
  qed
qed

lemma scan_rows_find:
  assumes "is_board b"
  shows "r + length rows \<le> 6 \<Longrightarrow> list_all (\<lambda>row. length row = 6) rows \<Longrightarrow>
           scan_rows b r rows =
             Inr (find (accepts b)
                    (concat (map (\<lambda>(i, row). row_candidates i (enumerate 0 row))
                               (enumerate r rows))))"
proof (induction rows arbitrary: r)
  case Nil
  show ?case by simp
next
  case (Cons row rows)
  from Cons.prems have r: "r < 6" and rest: "Suc r + length rows \<le> 6"
    and len: "length row = 6" and all: "list_all (\<lambda>row. length row = 6) rows" by simp_all
  from len have "0 + length row \<le> 6" by simp
  from scan_row_find [OF assms r this]
  have 1: "scan_row b r 0 row = Inr (find (accepts b) (row_candidates r (enumerate 0 row)))" .
  from Cons.IH [OF rest all] 1 show ?case
    by (simp add: find_append_cases split: option.splits)
qed

lemma enumerate_nth: "enumerate 0 xs = map (\<lambda>i. (i, xs ! i)) [0..<length xs]"
  by (rule nth_equalityI) (simp_all add: nth_enumerate_eq)

lemma spec_candidates_enumerate:
  assumes "is_board b"
  shows "spec_candidates b =
           concat (map (\<lambda>(i, row). row_candidates i (enumerate 0 row)) (enumerate 0 b))"
proof -
  from assms have len: "length b = 6" by (simp add: is_board_def)
  have "map (\<lambda>(i, row). row_candidates i (enumerate 0 row)) (enumerate 0 b) =
        map (\<lambda>r. row_candidates r (map (\<lambda>c. (c, b ! r ! c)) [0..<6])) [0..<6]"
    unfolding enumerate_nth [of b] len map_map
  proof (rule map_cong [OF refl])
    fix r assume "r \<in> set [0..<6]"
    then have "r < 6" by simp
    with assms have "length (b ! r) = 6" by (rule is_board_row)
    then show "((\<lambda>(i, row). row_candidates i (enumerate 0 row)) \<circ> (\<lambda>i. (i, b ! i))) r =
               row_candidates r (map (\<lambda>c. (c, b ! r ! c)) [0..<6])"
      by (simp add: enumerate_nth [of "b ! r"])
  qed
  then show ?thesis by (simp add: spec_candidates_def)
qed

lemma generate_rand_move_refines:
  assumes "is_board b"
  shows "generate_rand_move b = spec_first_valid b"
proof -
  from assms have "0 + length b \<le> 6" "list_all (\<lambda>row. length row = 6) b"
    by (simp_all add: is_board_def)
  from scan_rows_find [OF assms this] spec_candidates_enumerate [OF assms]
  have "scan_rows b 0 b = Inr (find (accepts b) (spec_candidates b))" by simp
  then show ?thesis
    by (simp add: generate_rand_move_def spec_first_valid_def split: option.splits)
qed

lemma spec_candidates_mem:
  "m \<in> set (spec_candidates b) \<longleftrightarrow>
     (\<exists>r<6. \<exists>c<6. b ! r ! c = ''B'' \<and> fst m = (int r, int c) \<and>
         (\<exists>d\<in>{- 1, 0, 1}. snd m = (int r + 1, int c + d)))"
  by (cases m) (auto simp add: spec_candidates_def row_candidates_def pawn_moves_def; force)

lemma accepts_candidate:
  assumes "is_board b" "in_grid (fst m)" "accepts b m"
  shows "m \<in> set (spec_candidates b)"
proof -
  from assms(3) valid_move_in_grid [OF assms(1,2), of "snd m"]
  have v: "tile_at b (fst m) = ''B''" "fst (snd m) = fst (fst m) + 1"
       "\<bar>snd (snd m) - snd (fst m)\<bar> \<le> 1"
    by (simp_all add: accepts_def)
  from assms(2) have g: "0 \<le> fst (fst m)" "fst (fst m) < 6" "0 \<le> snd (fst m)" "snd (fst m) < 6"
    by (simp_all add: in_grid_def ROW_def COL_def)
  define r c where "r = nat (fst (fst m))" and "c = nat (snd (fst m))"
  with g have rc: "r < 6" "c < 6" "fst m = (int r, int c)"
    by (simp_all add: prod_eq_iff)
  from v(1) rc have t: "b ! r ! c = ''B''" by (simp add: tile_at_def)
  define d where "d = snd (snd m) - snd (fst m)"
  with v(3) have d: "d \<in> {- 1, 0, 1}" by auto
  from v(2) rc d_def have "snd m = (int r + 1, int c + d)" by (simp add: prod_eq_iff)
  with rc t d show ?thesis unfolding spec_candidates_mem by blast
qed

lemma candidate_in_grid: "m \<in> set (spec_candidates b) \<Longrightarrow> in_grid (fst m)"
  by (auto simp add: spec_candidates_mem in_grid_def ROW_def COL_def)

lemma generate_rand_move_fails_iff:
  assumes "is_board b"
  shows "(\<exists>e. generate_rand_move b = Inl e) \<longleftrightarrow>
           (\<forall>src dst. in_grid src \<longrightarrow> is_valid_move b src dst \<noteq> Inr True)"
proof -
  have "(\<exists>e. generate_rand_move b = Inl e) \<longleftrightarrow> find (accepts b) (spec_candidates b) = None"
    by (simp add: generate_rand_move_refines [OF assms] spec_first_valid_def
             split: option.splits)
  also have "\<dots> \<longleftrightarrow> (\<forall>m\<in>set (spec_candidates b). \<not> accepts b m)"
    by (auto simp add: find_None_iff)
  also have "\<dots> \<longleftrightarrow> (\<forall>src dst. in_grid src \<longrightarrow> is_valid_move b src dst \<noteq> Inr True)"
  proof
    assume none: "\<forall>m\<in>set (spec_candidates b). \<not> accepts b m"
    show "\<forall>src dst. in_grid src \<longrightarrow> is_valid_move b src dst \<noteq> Inr True"
    proof (intro allI impI notI)
      fix src dst assume "in_grid src" "is_valid_move b src dst = Inr True"
      then have "in_grid (fst (src, dst))" "accepts b (src, dst)" by (simp_all add: accepts_def)
      with assms have "(src, dst) \<in> set (spec_candidates b)" by (rule accepts_candidate)
      with none \<open>accepts b (src, dst)\<close> show False by blast
    qed
  next
    assume "\<forall>src dst. in_grid src \<longrightarrow> is_valid_move b src dst \<noteq> Inr True"
    then show "\<forall>m\<in>set (spec_candidates b). \<not> accepts b m"
      by (auto simp add: accepts_def dest: candidate_in_grid)
  qed
  finally show ?thesis .
qed

text \<open>
  C4.  On a six-by-six board \<open>generate_rand_move\<close> returns the first move, in the order
  of \<open>spec_candidates\<close> (row-major over the cells holding \<open>"B"\<close>, offsets \<open>-1\<close>, \<open>0\<close>,
  \<open>+1\<close>), that \<open>is_valid_move\<close> accepts: every candidate before it is rejected.  It
  raises exactly when \<open>is_valid_move\<close> accepts no move from any source inside the grid.
\<close>

theorem generate_rand_move_first_valid:
  assumes "is_board b"
  shows "generate_rand_move b = spec_first_valid b \<and>
         (\<forall>m. generate_rand_move b = Inr m \<longrightarrow>
            (\<exists>i<length (spec_candidates b). m = spec_candidates b ! i \<and> accepts b m \<and>
               (\<forall>j<i. \<not> accepts b (spec_candidates b ! j)))) \<and>
         ((\<exists>e. generate_rand_move b = Inl e) \<longleftrightarrow>
            (\<forall>src dst. in_grid src \<longrightarrow> is_valid_move b src dst \<noteq> Inr True))"
proof (intro conjI allI impI)
  show r: "generate_rand_move b = spec_first_valid b"
    using assms by (rule generate_rand_move_refines)
  show "\<exists>i<length (spec_candidates b). m = spec_candidates b ! i \<and> accepts b m \<and>
               (\<forall>j<i. \<not> accepts b (spec_candidates b ! j))"
    if "generate_rand_move b = Inr m" for m
  proof -
    from that r have "find (accepts b) (spec_candidates b) = Some m"
      by (simp add: spec_first_valid_def split: option.splits)
    then show ?thesis unfolding find_Some_iff by auto
  qed
  show "(\<exists>e. generate_rand_move b = Inl e) \<longleftrightarrow>
            (\<forall>src dst. in_grid src \<longrightarrow> is_valid_move b src dst \<noteq> Inr True)"
    using assms by (rule generate_rand_move_fails_iff)
qed

lemma is_board_won: "is_board won_board"
  by code_simp

theorem generate_rand_move_first_valid_witness:
  "is_board generate_init_state \<and> is_board won_board \<and>
   generate_rand_move generate_init_state = Inr ((1, 0), (2, 0)) \<and>
   generate_rand_move won_board = Inl ValueError"
proof -
  have i: "spec_first_valid generate_init_state = Inr ((1, 0), (2, 0))" by code_simp
  have w: "spec_first_valid won_board = Inl ValueError" by code_simp
  from generate_rand_move_first_valid [OF is_board_init]
       generate_rand_move_first_valid [OF is_board_won] i w is_board_init is_board_won
  show ?thesis by simp
qed

text \<open>
  C8.  From the initial board the self-play loop raises nothing and ends after 37 moves,
  within the bound of 200, on a board on which \<open>is_game_over\<close> is true.
\<close>

theorem self_play_ends:
  "self_play 200 generate_init_state = Inr (Some (37, self_play_final)) \<and>
   (37::nat) \<le> 200 \<and> is_game_over self_play_final = Inr True"
  by code_simp




section \<open>Properties of the object store\<close>

lemma take_length_iff:
  "take (length xs) ys = xs \<longleftrightarrow> length xs \<le> length ys \<and> (\<forall>i<length xs. ys ! i = xs ! i)"
proof
  assume t: "take (length xs) ys = xs"
  then have "length (take (length xs) ys) = length xs" by simp
  then have le: "length xs \<le> length ys" by simp
  have "ys ! i = xs ! i" if "i < length xs" for i
  proof -
    from that have "take (length xs) ys ! i = ys ! i" by simp
    with t show ?thesis by simp
  qed
  with le show "length xs \<le> length ys \<and> (\<forall>i<length xs. ys ! i = xs ! i)" by blast
next
  assume "length xs \<le> length ys \<and> (\<forall>i<length xs. ys ! i = xs ! i)"
  then show "take (length xs) ys = xs" by (intro nth_equalityI) simp_all
qed

lemma preserves_iff:
  "preserves h h' \<longleftrightarrow>
     length (outer_lists h) \<le> length (outer_lists h') \<and>
     (\<forall>b<length (outer_lists h). outer_lists h' ! b = outer_lists h ! b) \<and>
     length (row_lists h) \<le> length (row_lists h') \<and>
     (\<forall>r<length (row_lists h). row_lists h' ! r = row_lists h ! r)"
  by (auto simp add: preserves_def take_length_iff)

lemma only_board_changed_iff:
  "only_board_changed h h' a \<longleftrightarrow>
     length (outer_lists h') = length (outer_lists h) \<and>
     length (row_lists h') = length (row_lists h) \<and>
     (\<forall>b<length (outer_lists h). b \<noteq> a \<longrightarrow> outer_lists h' ! b = outer_lists h ! b) \<and>
     (\<forall>r<length (row_lists h). r \<notin> set (outer_lists h ! a) \<longrightarrow>
          row_lists h' ! r = row_lists h ! r)"
  by (auto simp add: only_board_changed_def list_all_iff)

lemma preserves_board_at:
  assumes "preserves h h'" "wf_board h a"
  shows "board_at h' a = board_at h a"
proof -
  from assms(2) have a: "a < length (outer_lists h)"
    and r: "\<forall>r\<in>set (outer_lists h ! a). r < length (row_lists h)"
    by (simp_all add: wf_board_def list_all_iff)
  from assms(1) a have "outer_lists h' ! a = outer_lists h ! a" by (simp add: preserves_iff)
  moreover from assms(1) r
  have "\<forall>r\<in>set (outer_lists h ! a). row_lists h' ! r = row_lists h ! r"
    by (simp add: preserves_iff)
  ultimately show ?thesis by (simp add: board_at_def)
qed

lemma copy_rows_general:
  assumes "copy_rows memo rs refs = (out, rs')"
    and "n0 \<le> length rs"
    and "\<forall>p\<in>set memo. n0 \<le> snd p \<and> snd p < length rs"
  shows "take (length rs) rs' = rs \<and> (\<forall>r'\<in>set out. n0 \<le> r' \<and> r' < length rs')"
  using assms
proof (induction refs arbitrary: memo rs out rs')
  case Nil
  then show ?case by simp
next
  case (Cons r refs)
  show ?case
  proof (cases "map_of memo r")
    case (Some r')
    obtain out1 rs1 where c: "copy_rows memo rs refs = (out1, rs1)" by force
    with Some Cons.prems(1) have eq: "out = r' # out1" "rs' = rs1" by simp_all
    from Cons.IH [OF c Cons.prems(2,3)]
    have ih: "take (length rs) rs1 = rs" "\<forall>r'\<in>set out1. n0 \<le> r' \<and> r' < length rs1"
      by simp_all
    from ih(1) have le: "length rs \<le> length rs1" by (simp add: take_length_iff)
    from Some have "(r, r') \<in> set memo" by (rule map_of_SomeD)
    with Cons.prems(3) have "n0 \<le> r'" "r' < length rs" by auto
    with le ih eq show ?thesis by auto
  next
    case None
    let ?rs2 = "rs @ [rs ! r]"
    obtain out1 rs1 where c: "copy_rows ((r, length rs) # memo) ?rs2 refs = (out1, rs1)"
      by force
    with None Cons.prems(1) have eq: "out = length rs # out1" "rs' = rs1" by simp_all
    have p2: "n0 \<le> length ?rs2" using Cons.prems(2) by simp
    have p3: "\<forall>p\<in>set ((r, length rs) # memo). n0 \<le> snd p \<and> snd p < length ?rs2"
      using Cons.prems(2,3) by auto
    from Cons.IH [OF c p2 p3]
    have ih: "take (length ?rs2) rs1 = ?rs2" "\<forall>r'\<in>set out1. n0 \<le> r' \<and> r' < length rs1"
      by simp_all
    from ih(1) have "length ?rs2 \<le> length rs1 \<and> (\<forall>i<length ?rs2. rs1 ! i = ?rs2 ! i)"
      using take_length_iff [of ?rs2 rs1] by blast
    then have le: "length ?rs2 \<le> length rs1" and
      nth: "\<forall>i<length ?rs2. rs1 ! i = ?rs2 ! i" by blast+
    have "take (length rs) rs1 = rs"
      unfolding take_length_iff using le nth by (auto simp add: nth_append)
    moreover from le have "length rs < length rs1" by simp
    ultimately show ?thesis using ih(2) eq Cons.prems(2) by auto
  qed
qed

lemma copy_rows_distinct:
  assumes "distinct refs" and "\<forall>r\<in>set refs. map_of memo r = None \<and> r < length rs"
  shows "copy_rows memo rs refs =
           ([length rs..<length rs + length refs], rs @ map (\<lambda>r. rs ! r) refs)"
  using assms
proof (induction refs arbitrary: memo rs)
  case Nil
  show ?case by simp
next
  case (Cons r refs)
  let ?rs2 = "rs @ [rs ! r]"
  from Cons.prems have r: "map_of memo r = None" "r < length rs" "r \<notin> set refs"
    and d: "distinct refs" by simp_all
  have p: "\<forall>s\<in>set refs. map_of ((r, length rs) # memo) s = None \<and> s < length ?rs2"
    using Cons.prems r(3) by auto
  have same: "map (\<lambda>s. ?rs2 ! s) refs = map (\<lambda>s. rs ! s) refs"
    using Cons.prems by (auto simp add: nth_append)
  from Cons.IH [OF d p] same
  have "copy_rows ((r, length rs) # memo) ?rs2 refs =
          ([Suc (length rs)..<Suc (length rs) + length refs],
           rs @ rs ! r # map (\<lambda>s. rs ! s) refs)"
    by simp
  with r(1) show ?case by (simp add: upt_rec)
qed

lemma copy_rows_value:
  assumes "copy_rows memo rs refs = (out, rs')"
    and "\<forall>r\<in>set refs. r < length rs"
    and "\<forall>p\<in>set memo. snd p < length rs \<and> fst p < length rs \<and> rs ! snd p = rs ! fst p"
  shows "map (\<lambda>r. rs' ! r) out = map (\<lambda>r. rs ! r) refs"
  using assms
proof (induction refs arbitrary: memo rs out rs')
  case Nil
  then show ?case by simp
next
  case (Cons r refs)
  from Cons.prems(2) have r: "r < length rs" and rest: "\<forall>s\<in>set refs. s < length rs"
    by simp_all
  show ?case
  proof (cases "map_of memo r")
    case (Some r')
    obtain out1 rs1 where c: "copy_rows memo rs refs = (out1, rs1)" by force
    with Some Cons.prems(1) have eq: "out = r' # out1" "rs' = rs1" by simp_all
    from Cons.IH [OF c rest Cons.prems(3)]
    have ih: "map (\<lambda>r. rs1 ! r) out1 = map (\<lambda>r. rs ! r) refs" .
    from Cons.prems(3) have "\<forall>p\<in>set memo. 0 \<le> snd p \<and> snd p < length rs" by simp
    from copy_rows_general [OF c _ this] have "take (length rs) rs1 = rs" by simp
    then have pre: "\<forall>i<length rs. rs1 ! i = rs ! i" by (simp add: take_length_iff)
    from Some have "(r, r') \<in> set memo" by (rule map_of_SomeD)
    with Cons.prems(3) have "r' < length rs" "rs ! r' = rs ! r" by auto
    with pre have "rs1 ! r' = rs ! r" by simp
    with ih eq show ?thesis by simp
  next
    case None
    let ?rs2 = "rs @ [rs ! r]"
    obtain out1 rs1 where c: "copy_rows ((r, length rs) # memo) ?rs2 refs = (out1, rs1)"
      by force
    with None Cons.prems(1) have eq: "out = length rs # out1" "rs' = rs1" by simp_all
    have p2: "\<forall>s\<in>set refs. s < length ?rs2" using rest by auto
    have p3: "\<forall>p\<in>set ((r, length rs) # memo).
                snd p < length ?rs2 \<and> fst p < length ?rs2 \<and> ?rs2 ! snd p = ?rs2 ! fst p"
      using Cons.prems(3) r by (auto simp add: nth_append)
    from Cons.IH [OF c p2 p3]
    have "map (\<lambda>r. rs1 ! r) out1 = map (\<lambda>r. ?rs2 ! r) refs" .
    also have "\<dots> = map (\<lambda>r. rs ! r) refs" using rest by (auto simp add: nth_append)
    finally have ih: "map (\<lambda>r. rs1 ! r) out1 = map (\<lambda>r. rs ! r) refs" .
    from p3 have "\<forall>p\<in>set ((r, length rs) # memo). 0 \<le> snd p \<and> snd p < length ?rs2" by simp
    from copy_rows_general [OF c _ this] have "take (length ?rs2) rs1 = ?rs2" by simp
    then have "\<forall>i<length ?rs2. rs1 ! i = ?rs2 ! i" using take_length_iff [of ?rs2 rs1] by blast
    then have "rs1 ! length rs = ?rs2 ! length rs" by simp
    then have "rs1 ! length rs = rs ! r" by simp
    with ih eq show ?thesis by simp
  qed
qed

lemma deepcopy_value:
  assumes "wf_board h a" and "deepcopy h a = (h1, a1)"
  shows "board_at h1 a1 = board_at h a"
proof -
  obtain out rs' where c: "copy_rows [] (row_lists h) (outer_lists h ! a) = (out, rs')"
    by force
  with assms(2) have h1: "h1 = \<lparr>outer_lists = outer_lists h @ [out], row_lists = rs'\<rparr>"
    and a1: "a1 = length (outer_lists h)" by (simp_all add: deepcopy_def)
  from assms(1) have "\<forall>r\<in>set (outer_lists h ! a). r < length (row_lists h)"
    by (simp add: wf_board_def list_all_iff)
  from copy_rows_value [OF c this] show ?thesis by (simp add: board_at_def h1 a1)
qed

lemma deepcopy_frame:
  assumes "wf_board h a" and "deepcopy h a = (h1, a1)"
  shows "preserves h h1" and "fresh_board h h1 a1" and "a1 = length (outer_lists h)"
    and "wf_board h1 a1"
proof -
  obtain out rs' where c: "copy_rows [] (row_lists h) (outer_lists h ! a) = (out, rs')"
    by force
  with assms(2) have h1: "h1 = \<lparr>outer_lists = outer_lists h @ [out], row_lists = rs'\<rparr>"
    and a1: "a1 = length (outer_lists h)" by (simp_all add: deepcopy_def)
  from copy_rows_general [OF c, of "length (row_lists h)"]
  have t: "take (length (row_lists h)) rs' = row_lists h"
    and f: "\<forall>r'\<in>set out. length (row_lists h) \<le> r' \<and> r' < length rs'" by simp_all
  show "preserves h h1" using t by (simp add: preserves_def h1)
  show "fresh_board h h1 a1" using f by (simp add: fresh_board_def h1 a1 list_all_iff)
  show "a1 = length (outer_lists h)" by (rule a1)
  show "wf_board h1 a1" using f by (simp add: wf_board_def h1 a1 list_all_iff)
qed

lemma deepcopy_distinct:
  assumes "wf_board h a" and "distinct (outer_lists h ! a)" and "deepcopy h a = (h1, a1)"
  shows "board_at h1 a1 = board_at h a" and "distinct (outer_lists h1 ! a1)"
proof -
  from assms(1) have "\<forall>r\<in>set (outer_lists h ! a). map_of [] r = None \<and> r < length (row_lists h)"
    by (simp add: wf_board_def list_all_iff)
  from copy_rows_distinct [OF assms(2) this] assms(3)
  have h1: "h1 = \<lparr>outer_lists = outer_lists h @
                    [[length (row_lists h)..<length (row_lists h) + length (outer_lists h ! a)]],
                  row_lists = row_lists h @ map (\<lambda>r. row_lists h ! r) (outer_lists h ! a)\<rparr>"
    and a1: "a1 = length (outer_lists h)" by (simp_all add: deepcopy_def)
  show "distinct (outer_lists h1 ! a1)" by (simp add: h1 a1)
  show "board_at h1 a1 = board_at h a"
    by (rule nth_equalityI) (simp_all add: board_at_def h1 a1 nth_append)
qed

lemma length_swap_row: "length (swap_row x rs) = length rs"
  by (simp add: swap_row_def)

lemma swap_row_nth:
  "swap_row x rs ! r = (if r = x \<and> x < length rs then map swap_tile (rs ! x) else rs ! r)"
  by (cases "r = x") (auto simp add: swap_row_def list_update_beyond)

lemma length_fold_swap_row: "length (fold swap_row refs rs) = length rs"
  by (induction refs arbitrary: rs) (simp_all add: length_swap_row)

lemma fold_swap_row_other: "r \<notin> set refs \<Longrightarrow> fold swap_row refs rs ! r = rs ! r"
  by (induction refs arbitrary: rs) (auto simp add: swap_row_nth)

lemma fold_swap_row_distinct:
  "distinct refs \<Longrightarrow> r \<in> set refs \<Longrightarrow> r < length rs \<Longrightarrow>
     fold swap_row refs rs ! r = map swap_tile (rs ! r)"
proof (induction refs arbitrary: rs)
  case Nil
  then show ?case by simp
next
  case (Cons x refs)
  show ?case
  proof (cases "r = x")
    case True
    with Cons.prems have "r \<notin> set refs" by simp
    then have "fold swap_row refs (swap_row x rs) ! r = swap_row x rs ! r"
      by (rule fold_swap_row_other)
    with True Cons.prems(3) show ?thesis by (simp add: swap_row_nth)
  next
    case False
    with Cons.prems have "r \<in> set refs" "distinct refs" "r < length (swap_row x rs)"
      by (simp_all add: length_swap_row)
    from Cons.IH [OF this(2,1,3)] False show ?thesis by (simp add: swap_row_nth)
  qed
qed

lemma invert_in_place_frame:
  assumes "a < length (outer_lists h)"
  shows "only_board_changed h (invert_in_place h a) a"
    and "outer_lists (invert_in_place h a) ! a = rev (outer_lists h ! a)"
    and "length (row_lists (invert_in_place h a)) = length (row_lists h)"
  using assms
  by (simp_all add: only_board_changed_iff invert_in_place_def Let_def length_fold_swap_row
        fold_swap_row_other)

lemma invert_in_place_value:
  assumes "wf_board h a" and "distinct (outer_lists h ! a)"
  shows "board_at (invert_in_place h a) a = invert_board (board_at h a)"
proof -
  from assms(1) have a: "a < length (outer_lists h)"
    and r: "\<forall>r\<in>set (outer_lists h ! a). r < length (row_lists h)"
    by (simp_all add: wf_board_def list_all_iff)
  let ?refs = "rev (outer_lists h ! a)"
  have "fold swap_row ?refs (row_lists h) ! r = map swap_tile (row_lists h ! r)"
    if "r \<in> set ?refs" for r
    using assms(2) that r by (intro fold_swap_row_distinct) simp_all
  then have "map (\<lambda>r. fold swap_row ?refs (row_lists h) ! r) ?refs =
             map (\<lambda>r. map swap_tile (row_lists h ! r)) ?refs"
    by (intro map_cong) simp_all
  then show ?thesis using a
    by (simp add: board_at_def invert_in_place_def Let_def invert_board_def rev_map)
qed

lemma frame_compose:
  assumes p: "preserves h h1" and f: "fresh_board h h1 a1"
    and o: "only_board_changed h1 h' a1"
    and s: "set (outer_lists h' ! a1) = set (outer_lists h1 ! a1)"
  shows "preserves h h'" and "fresh_board h h' a1"
proof -
  from f have a1: "length (outer_lists h) \<le> a1" "a1 < length (outer_lists h1)"
    and fr: "\<forall>r\<in>set (outer_lists h1 ! a1). length (row_lists h) \<le> r \<and> r < length (row_lists h1)"
    by (simp_all add: fresh_board_def list_all_iff)
  from p have pl: "length (outer_lists h) \<le> length (outer_lists h1)"
      "length (row_lists h) \<le> length (row_lists h1)"
    and pb: "\<forall>b<length (outer_lists h). outer_lists h1 ! b = outer_lists h ! b"
    and pr: "\<forall>r<length (row_lists h). row_lists h1 ! r = row_lists h ! r"
    by (simp_all add: preserves_iff)
  from o have ol: "length (outer_lists h') = length (outer_lists h1)"
      "length (row_lists h') = length (row_lists h1)"
    and ob: "\<forall>b<length (outer_lists h1). b \<noteq> a1 \<longrightarrow> outer_lists h' ! b = outer_lists h1 ! b"
    and orr: "\<forall>r<length (row_lists h1). r \<notin> set (outer_lists h1 ! a1) \<longrightarrow>
               row_lists h' ! r = row_lists h1 ! r"
    by (simp_all add: only_board_changed_iff)
  have 1: "outer_lists h' ! b = outer_lists h ! b" if "b < length (outer_lists h)" for b
  proof -
    from that a1 pl have "b < length (outer_lists h1)" "b \<noteq> a1" by simp_all
    with ob pb that show ?thesis by simp
  qed
  have 2: "row_lists h' ! r = row_lists h ! r" if "r < length (row_lists h)" for r
  proof -
    from that fr have "r \<notin> set (outer_lists h1 ! a1)" by auto
    moreover from that pl have "r < length (row_lists h1)" by simp
    ultimately show ?thesis using orr pr that by simp
  qed
  from 1 2 pl ol show "preserves h h'" by (simp add: preserves_iff)
  from a1 fr s ol show "fresh_board h h' a1" by (simp add: fresh_board_def list_all_iff)
qed

lemma returns_copyI:
  assumes "wf_board h a" and "preserves h h'" and "fresh_board h h' a'"
  shows "returns_copy h a (h', a')"
proof -
  from assms(1,3) have "a' \<noteq> a" by (auto simp add: wf_board_def fresh_board_def)
  with assms preserves_board_at [OF assms(2,1)] show ?thesis by (simp add: returns_copy_def)
qed

lemma invert_copy:
  assumes "wf_board h a"
  shows "returns_copy h a (invert_board_st h a False)"
proof -
  obtain h1 a1 where d: "deepcopy h a = (h1, a1)" by force
  note dc = deepcopy_frame [OF assms d]
  from dc(2) have a1: "a1 < length (outer_lists h1)" by (simp add: fresh_board_def)
  note inv = invert_in_place_frame [OF a1]
  from inv(2) have "set (outer_lists (invert_in_place h1 a1) ! a1) = set (outer_lists h1 ! a1)"
    by simp
  from frame_compose [OF dc(1,2) inv(1) this] assms d show ?thesis
    by (simp add: invert_board_st_def returns_copyI)
qed

lemma invert_same:
  assumes "wf_board h a"
  shows "returns_same h a (invert_board_st h a True)"
  using assms invert_in_place_frame(1) [of a h]
  by (simp add: invert_board_st_def returns_same_def wf_board_def)

lemma invert_value:
  assumes "wf_board h a" and "distinct (outer_lists h ! a)"
  shows "board_of (invert_board_st h a in_place) = invert_board (board_at h a)"
proof (cases in_place)
  case True
  with invert_in_place_value [OF assms] show ?thesis
    by (simp add: invert_board_st_def board_of_def)
next
  case False
  obtain h1 a1 where d: "deepcopy h a = (h1, a1)" by force
  note dc = deepcopy_frame [OF assms(1) d] and dd = deepcopy_distinct [OF assms d]
  from invert_in_place_value [OF dc(4) dd(2)] dd(1) False d show ?thesis
    by (simp add: invert_board_st_def board_of_def)
qed





lemma store_cell_cases:
  "store_cell h a r c v =
     (case norm_index (length (outer_lists h ! a)) r of
        None \<Rightarrow> Inl IndexError
      | Some i \<Rightarrow>
          (case norm_index (length (row_lists h ! (outer_lists h ! a ! i))) c of
             None \<Rightarrow> Inl IndexError
           | Some j \<Rightarrow>
               Inr (h\<lparr>row_lists := (row_lists h)[outer_lists h ! a ! i :=
                                       (row_lists h ! (outer_lists h ! a ! i))[j := v]]\<rparr>)))"
  by (simp add: store_cell_def subscript_def assign_def split: option.splits)

lemma store_cell_frame:
  assumes "store_cell h a r c v = Inr h'"
  shows "only_board_changed h h' a" and "outer_lists h' = outer_lists h"
    and "length (row_lists h') = length (row_lists h)"
proof -
  from assms obtain i j where
    i: "norm_index (length (outer_lists h ! a)) r = Some i" and
    h': "h' = h\<lparr>row_lists := (row_lists h)[outer_lists h ! a ! i :=
                               (row_lists h ! (outer_lists h ! a ! i))[j := v]]\<rparr>"
    by (auto simp add: store_cell_cases split: option.splits)
  from i have "i < length (outer_lists h ! a)" by (rule norm_index_less)
  then have mem: "outer_lists h ! a ! i \<in> set (outer_lists h ! a)" by simp
  show "outer_lists h' = outer_lists h" by (simp add: h')
  show "length (row_lists h') = length (row_lists h)" by (simp add: h')
  have "row_lists h' ! r = row_lists h ! r" if "r \<notin> set (outer_lists h ! a)" for r
  proof -
    from that mem have "outer_lists h ! a ! i \<noteq> r" by auto
    then show ?thesis by (simp add: h')
  qed
  then show "only_board_changed h h' a"
    unfolding only_board_changed_iff by (simp add: h')
qed

lemma map_nth_update_distinct:
  assumes "distinct refs" and "i < length refs" and "refs ! i < length rs"
  shows "map (\<lambda>r. rs[refs ! i := x] ! r) refs = (map (\<lambda>r. rs ! r) refs)[i := x]"
proof (rule nth_equalityI)
  show "length (map (\<lambda>r. rs[refs ! i := x] ! r) refs) = length ((map (\<lambda>r. rs ! r) refs)[i := x])"
    by simp
next
  fix k assume "k < length (map (\<lambda>r. rs[refs ! i := x] ! r) refs)"
  then have k: "k < length refs" by simp
  show "map (\<lambda>r. rs[refs ! i := x] ! r) refs ! k = (map (\<lambda>r. rs ! r) refs)[i := x] ! k"
  proof (cases "k = i")
    case True
    with assms k show ?thesis by simp
  next
    case False
    with assms(1,2) k have "refs ! k \<noteq> refs ! i" by (simp add: nth_eq_iff_index_eq)
    with False k show ?thesis by simp
  qed
qed

lemma store_cell_refines:
  assumes "wf_board h a" and "distinct (outer_lists h ! a)"
  shows "(case store_cell h a r c v of Inl e \<Rightarrow> Inl e | Inr h' \<Rightarrow> Inr (board_at h' a)) =
           set_cell (board_at h a) r c v"
proof (cases "norm_index (length (outer_lists h ! a)) r")
  case None
  then show ?thesis by (simp add: store_cell_cases set_cell_def board_at_def)
next
  case (Some i)
  then have i: "i < length (outer_lists h ! a)" by (rule norm_index_less)
  with assms(1) have ref: "outer_lists h ! a ! i < length (row_lists h)"
    by (simp add: wf_board_def list_all_length)
  show ?thesis
  proof (cases "norm_index (length (row_lists h ! (outer_lists h ! a ! i))) c")
    case None
    with Some i show ?thesis
      by (simp add: store_cell_cases set_cell_def assign_def board_at_def)
  next
    case (Some j)
    with \<open>norm_index (length (outer_lists h ! a)) r = Some i\<close> i
      map_nth_update_distinct [OF assms(2) i ref]
    show ?thesis
      by (simp add: store_cell_cases set_cell_def assign_def board_at_def)
  qed
qed

lemma only_board_changed_refl: "only_board_changed h h a"
  by (simp add: only_board_changed_iff)

lemma only_board_changed_trans:
  assumes "only_board_changed h h1 a" and "outer_lists h1 = outer_lists h"
    and "only_board_changed h1 h2 a"
  shows "only_board_changed h h2 a"
  using assms unfolding only_board_changed_iff by auto

lemma state_change_in_place_frame:
  assumes "state_change_st h a src dst True = Inr res"
  shows "returns_same h a res" and "outer_lists (fst res) = outer_lists h"
    and "length (row_lists (fst res)) = length (row_lists h)"
proof -
  have "returns_same h a res \<and> outer_lists (fst res) = outer_lists h \<and>
        length (row_lists (fst res)) = length (row_lists h)"
  proof (cases "is_valid_move (board_at h a) src dst = Inr True")
    case False
    with assms have "res = (h, a)"
      by (auto simp add: state_change_st_def split: sum.splits if_splits)
    then show ?thesis by (simp add: returns_same_def only_board_changed_refl)
  next
    case True
    with assms obtain h2 h3 where
      2: "store_cell h a (fst src) (snd src) ''_'' = Inr h2" and
      3: "store_cell h2 a (fst dst) (snd dst) ''B'' = Inr h3" and
      res: "res = (h3, a)"
      by (auto simp add: state_change_st_def split: sum.splits)
    note f2 = store_cell_frame [OF 2] and f3 = store_cell_frame [OF 3]
    from only_board_changed_trans [OF f2(1,2) f3(1)] f2(2,3) f3(2,3) res
    show ?thesis by (simp add: returns_same_def)
  qed
  then show "returns_same h a res" and "outer_lists (fst res) = outer_lists h"
    and "length (row_lists (fst res)) = length (row_lists h)" by simp_all
qed

lemma state_change_in_place_value:
  assumes "wf_board h a" and "distinct (outer_lists h ! a)"
  shows "map_sum id board_of (state_change_st h a src dst True) =
           state_change (board_at h a) src dst"
proof (cases "is_valid_move (board_at h a) src dst = Inr True")
  case False
  then show ?thesis
    by (cases "is_valid_move (board_at h a) src dst")
       (auto simp add: state_change_st_def state_change_def board_of_def)
next
  case True
  note r1 = store_cell_refines [OF assms, of "fst src" "snd src" "''_''"]
  show ?thesis
  proof (cases "store_cell h a (fst src) (snd src) ''_''")
    case (Inl e)
    with r1 have "set_cell (board_at h a) (fst src) (snd src) ''_'' = Inl e" by simp
    with Inl True show ?thesis
      by (cases src; cases dst) (simp add: state_change_st_def state_change_def)
  next
    case (Inr h2)
    note f2 = store_cell_frame [OF Inr]
    from assms f2(2,3) have wf2: "wf_board h2 a" and d2: "distinct (outer_lists h2 ! a)"
      by (simp_all add: wf_board_def)
    note r2 = store_cell_refines [OF wf2 d2, of "fst dst" "snd dst" "''B''"]
    from r1 Inr have s1: "set_cell (board_at h a) (fst src) (snd src) ''_'' = Inr (board_at h2 a)"
      by simp
    show ?thesis
      using True Inr s1 r2
      by (cases src; cases dst; cases "store_cell h2 a (fst dst) (snd dst) ''B''")
         (simp_all add: state_change_st_def state_change_def board_of_def)
  qed
qed

lemma state_change_copy_unfold:
  "deepcopy h a = (h1, a1) \<Longrightarrow>
     state_change_st h a src dst False = state_change_st h1 a1 src dst True"
  by (simp add: state_change_st_def)

lemma state_change_copy_frame:
  assumes "wf_board h a" and "state_change_st h a src dst False = Inr res"
  shows "returns_copy h a res"
proof -
  obtain h1 a1 where d: "deepcopy h a = (h1, a1)" by force
  note dc = deepcopy_frame [OF assms(1) d]
  from assms(2) state_change_copy_unfold [OF d]
  have r: "state_change_st h1 a1 src dst True = Inr res" by simp
  note f = state_change_in_place_frame [OF r]
  from f(1) have a': "snd res = a1" and o: "only_board_changed h1 (fst res) a1"
    by (simp_all add: returns_same_def)
  from f(2) have "set (outer_lists (fst res) ! a1) = set (outer_lists h1 ! a1)" by simp
  from frame_compose [OF dc(1,2) o this] a'
  have "preserves h (fst res)" "fresh_board h (fst res) (snd res)" by simp_all
  with returns_copyI [OF assms(1), of "fst res" "snd res"] show ?thesis by simp
qed

lemma state_change_value:
  assumes "wf_board h a" and "distinct (outer_lists h ! a)"
  shows "map_sum id board_of (state_change_st h a src dst in_place) =
           state_change (board_at h a) src dst"
proof (cases in_place)
  case True
  with state_change_in_place_value [OF assms] show ?thesis by simp
next
  case False
  obtain h1 a1 where d: "deepcopy h a = (h1, a1)" by force
  note dc = deepcopy_frame [OF assms(1) d] and dd = deepcopy_distinct [OF assms d]
  from state_change_in_place_value [OF dc(4) dd(2), of src dst] dd(1)
       state_change_copy_unfold [OF d, of src dst] False
  show ?thesis by simp
qed









lemma state_change_invalid:
  assumes "wf_board h a" and "is_valid_move (board_at h a) src dst = Inr False"
  shows "\<exists>res. state_change_st h a src dst in_place = Inr res \<and> board_of res = board_at h a \<and>
           (in_place \<longrightarrow> res = (h, a))"
proof (cases in_place)
  case True
  with assms(2) show ?thesis by (simp add: state_change_st_def board_of_def)
next
  case False
  obtain h1 a1 where d: "deepcopy h a = (h1, a1)" by force
  from deepcopy_value [OF assms(1) d] have v: "board_at h1 a1 = board_at h a" .
  with assms(2) d False have "state_change_st h a src dst in_place = Inr (h1, a1)"
    by (simp add: state_change_st_def)
  with v False show ?thesis by (simp add: board_of_def)
qed

lemma state_change_valid_store:
  assumes "wf_board h a" and "distinct (outer_lists h ! a)"
    and "is_valid_move (board_at h a) src dst = Inr True"
  shows "\<exists>res. state_change_st h a src dst in_place = Inr res \<and>
           cell (board_of res) (fst src) (snd src) = Inr ''_'' \<and>
           cell (board_of res) (fst dst) (snd dst) = Inr ''B'' \<and>
           (\<forall>p. locate (board_at h a) p \<noteq> locate (board_at h a) src \<and>
                locate (board_at h a) p \<noteq> locate (board_at h a) dst \<longrightarrow>
                cell (board_of res) (fst p) (snd p) = cell (board_at h a) (fst p) (snd p))"
proof -
  from state_change_cells [of "board_at h a" src dst] assms(3)
  obtain b' where b': "state_change (board_at h a) src dst = Inr b'"
    "cell b' (fst src) (snd src) = Inr ''_''" "cell b' (fst dst) (snd dst) = Inr ''B''"
    "\<forall>p. locate (board_at h a) p \<noteq> locate (board_at h a) src \<and>
         locate (board_at h a) p \<noteq> locate (board_at h a) dst \<longrightarrow>
         cell b' (fst p) (snd p) = cell (board_at h a) (fst p) (snd p)"
    by blast
  from state_change_value [OF assms(1,2), of src dst in_place] b'(1)
  obtain res where "state_change_st h a src dst in_place = Inr res" "board_of res = b'"
    by (cases "state_change_st h a src dst in_place") auto
  with b' show ?thesis by auto
qed

text \<open>
  C2, as amended.  For a board object in the store: when no row object occurs twice in
  the board and \<open>is_valid_move\<close> returns \<open>True\<close>, \<open>state_change\<close>, in place or on a
  copy, returns a board whose source cell reads \<open>"_"\<close>, whose destination cell reads
  \<open>"B"\<close> and whose every other cell reads as before; when \<open>is_valid_move\<close> returns
  \<open>False\<close>, rows shared or not, the board returned has the value of the board given,
  and in place the store is left as it was.
\<close>

theorem state_change_effect:
  assumes "wf_board h a"
  shows "(distinct (outer_lists h ! a) \<and> is_valid_move (board_at h a) src dst = Inr True \<longrightarrow>
          (\<exists>res. state_change_st h a src dst in_place = Inr res \<and>
             cell (board_of res) (fst src) (snd src) = Inr ''_'' \<and>
             cell (board_of res) (fst dst) (snd dst) = Inr ''B'' \<and>
             (\<forall>p. locate (board_at h a) p \<noteq> locate (board_at h a) src \<and>
                  locate (board_at h a) p \<noteq> locate (board_at h a) dst \<longrightarrow>
                  cell (board_of res) (fst p) (snd p) = cell (board_at h a) (fst p) (snd p)))) \<and>
         (is_valid_move (board_at h a) src dst = Inr False \<longrightarrow>
          (\<exists>res. state_change_st h a src dst in_place = Inr res \<and>
             board_of res = board_at h a \<and> (in_place \<longrightarrow> res = (h, a))))"
  using assms state_change_valid_store [of h a src dst in_place]
    state_change_invalid [of h a src dst in_place]
  by blast

theorem state_change_effect_witness:
  "wf_board init_store 0 \<and> distinct (outer_lists init_store ! 0) \<and>
   is_valid_move (board_at init_store 0) (1, 0) (2, 0) = Inr True \<and>
   (\<exists>res. state_change_st init_store 0 (1, 0) (2, 0) False = Inr res \<and>
      cell (board_of res) 1 0 = Inr ''_'' \<and> cell (board_of res) 2 0 = Inr ''B'' \<and>
      cell (board_of res) 1 1 = Inr ''B'') \<and>
   is_valid_move (board_at init_store 0) (0, 0) (1, 0) = Inr False \<and>
   state_change_st init_store 0 (0, 0) (1, 0) True = Inr (init_store, 0)"
proof -
  have w: "wf_board init_store 0" by code_simp
  have d: "distinct (outer_lists init_store ! 0)" by code_simp
  have v: "is_valid_move (board_at init_store 0) (1, 0) (2, 0) = Inr True" by code_simp
  have i: "is_valid_move (board_at init_store 0) (0, 0) (1, 0) = Inr False" by code_simp
  have l: "locate (board_at init_store 0) (1, 1) \<noteq> locate (board_at init_store 0) (1, 0) \<and>
           locate (board_at init_store 0) (1, 1) \<noteq> locate (board_at init_store 0) (2, 0)"
    by code_simp
  have c: "cell (board_at init_store 0) 1 1 = Inr ''B''" by code_simp
  from state_change_effect [OF w, of "(1, 0)" "(2, 0)" False] d v
  obtain res where res: "state_change_st init_store 0 (1, 0) (2, 0) False = Inr res"
      "cell (board_of res) 1 0 = Inr ''_''" "cell (board_of res) 2 0 = Inr ''B''"
      "\<forall>p. locate (board_at init_store 0) p \<noteq> locate (board_at init_store 0) (1, 0) \<and>
           locate (board_at init_store 0) p \<noteq> locate (board_at init_store 0) (2, 0) \<longrightarrow>
           cell (board_of res) (fst p) (snd p) = cell (board_at init_store 0) (fst p) (snd p)"
    by auto
  from res(4) l have "cell (board_of res) (fst (1::int, 1::int)) (snd (1::int, 1::int)) =
      cell (board_at init_store 0) (fst (1::int, 1::int)) (snd (1::int, 1::int))"
    by blast
  with c have "cell (board_of res) 1 1 = Inr ''B''" by simp
  with res have e: "\<exists>res. state_change_st init_store 0 (1, 0) (2, 0) False = Inr res \<and>
      cell (board_of res) 1 0 = Inr ''_'' \<and> cell (board_of res) 2 0 = Inr ''B'' \<and>
      cell (board_of res) 1 1 = Inr ''B''" by blast
  from state_change_effect [OF w, of "(0, 0)" "(1, 0)" True] i
  have "state_change_st init_store 0 (0, 0) (1, 0) True = Inr (init_store, 0)" by auto
  with w d v i e show ?thesis by blast
qed

text \<open>
  On a six-by-six board with shared row objects the claim as stated fails: the move from
  \<open>(1, 0)\<close> to \<open>(2, 0)\<close> is valid, and \<open>state_change\<close>, in place or on a copy, also
  empties cell \<open>(0, 0)\<close> and puts a \<open>"B"\<close> on cell \<open>(3, 0)\<close>, which are neither its
  source nor its destination.
\<close>

theorem state_change_shared_rows_counterexample:
  "wf_board shared_store 0 \<and> is_board (board_at shared_store 0) \<and>
   is_valid_move (board_at shared_store 0) (1, 0) (2, 0) = Inr True \<and>
   cell (board_at shared_store 0) 0 0 = Inr ''B'' \<and>
   cell (board_at shared_store 0) 3 0 = Inr ''_'' \<and>
   \<not> isl (state_change_st shared_store 0 (1, 0) (2, 0) True) \<and>
   cell (board_of (projr (state_change_st shared_store 0 (1, 0) (2, 0) True))) 0 0 = Inr ''_'' \<and>
   cell (board_of (projr (state_change_st shared_store 0 (1, 0) (2, 0) True))) 3 0 = Inr ''B'' \<and>
   \<not> isl (state_change_st shared_store 0 (1, 0) (2, 0) False) \<and>
   cell (board_of (projr (state_change_st shared_store 0 (1, 0) (2, 0) False))) 0 0 = Inr ''_'' \<and>
   cell (board_of (projr (state_change_st shared_store 0 (1, 0) (2, 0) False))) 3 0 = Inr ''B''"
  by code_simp

text \<open>
  C7.  For a board object \<open>a\<close> allocated in the store with all its rows: with
  \<open>in_place\<close> false, \<open>invert_board\<close> and (when it returns) \<open>state_change\<close> return a
  reference other than \<open>a\<close> to a board object that the store did not have, whose rows are
  all new objects, and every object of the store, so every cell of the board \<open>a\<close>, is as
  before; with \<open>in_place\<close> true they return \<open>a\<close> itself, allocate nothing and change at
  most the board object \<open>a\<close> and its rows.  When no row object occurs twice in the board,
  the board returned has, either way, the value that \<open>invert_board\<close> and \<open>state_change\<close>
  of the first section give for the value of \<open>a\<close>.
\<close>

theorem in_place_contract:
  assumes "wf_board h a"
  shows "returns_copy h a (invert_board_st h a False) \<and>
         returns_same h a (invert_board_st h a True) \<and>
         (\<forall>res. state_change_st h a src dst False = Inr res \<longrightarrow> returns_copy h a res) \<and>
         (\<forall>res. state_change_st h a src dst True = Inr res \<longrightarrow> returns_same h a res) \<and>
         (distinct (outer_lists h ! a) \<longrightarrow>
            (\<forall>in_place.
               board_of (invert_board_st h a in_place) = invert_board (board_at h a) \<and>
               map_sum id board_of (state_change_st h a src dst in_place) =
                 state_change (board_at h a) src dst))"
  using assms
  by (auto simp add: invert_copy invert_same state_change_copy_frame
        state_change_in_place_frame(1) invert_value state_change_value)

theorem in_place_contract_witness:
  "wf_board init_store 0 \<and> distinct (outer_lists init_store ! 0) \<and>
   returns_copy init_store 0 (invert_board_st init_store 0 False) \<and>
   returns_same init_store 0 (invert_board_st init_store 0 True) \<and>
   \<not> isl (state_change_st init_store 0 (1, 0) (2, 0) False) \<and>
   returns_copy init_store 0 (projr (state_change_st init_store 0 (1, 0) (2, 0) False)) \<and>
   \<not> isl (state_change_st init_store 0 (1, 0) (2, 0) True) \<and>
   returns_same init_store 0 (projr (state_change_st init_store 0 (1, 0) (2, 0) True)) \<and>
   board_of (invert_board_st init_store 0 True) = invert_board (board_at init_store 0) \<and>
   board_of (projr (state_change_st init_store 0 (1, 0) (2, 0) False)) = after_first_move"
proof -
  have w: "wf_board init_store 0" by code_simp
  have d: "distinct (outer_lists init_store ! 0)" by code_simp
  have c: "\<not> isl (state_change_st init_store 0 (1, 0) (2, 0) False)" by code_simp
  have s: "\<not> isl (state_change_st init_store 0 (1, 0) (2, 0) True)" by code_simp
  have v: "board_of (projr (state_change_st init_store 0 (1, 0) (2, 0) False)) = after_first_move"
    by code_simp
  from c have c': "state_change_st init_store 0 (1, 0) (2, 0) False =
      Inr (projr (state_change_st init_store 0 (1, 0) (2, 0) False))"
    by (cases "state_change_st init_store 0 (1, 0) (2, 0) False") simp_all
  from s have s': "state_change_st init_store 0 (1, 0) (2, 0) True =
      Inr (projr (state_change_st init_store 0 (1, 0) (2, 0) True))"
    by (cases "state_change_st init_store 0 (1, 0) (2, 0) True") simp_all
  from in_place_contract [OF w, of "(1, 0)" "(2, 0)"] d c' s' w c s v
  show ?thesis by blast
qed

section \<open>Properties of the match driver\<close>





lemma black_turn_blocks:
  assumes "player (st_move s) (fst (deepcopy (st_store s) (st_board s)))
             (snd (deepcopy (st_store s) (st_board s))) = Job_Exit_1 None \<or>
           player (st_move s) (fst (deepcopy (st_store s) (st_board s)))
             (snd (deepcopy (st_store s) (st_board s))) = Job_Exit_0 None"
  shows "black_turn player s = Blocks"
  using assms by (cases "deepcopy (st_store s) (st_board s)") (auto simp add: black_turn_def)


lemma play_turn_black:
  "even (st_move s) \<Longrightarrow>
     play_turn playerAI_A playerAI_B s = black_turn playerAI_A (s\<lparr>st_color := Some Black\<rparr>)"
proof -
  assume "even (st_move s)"
  then have "st_move s mod 2 \<noteq> 1" by presburger
  then show ?thesis by (simp add: play_turn_def)
qed


lemma play_loop_step:
  assumes "is_game_over (current_board s) = Inr False"
  shows "play_loop playerAI_A playerAI_B s =
           (case play_turn playerAI_A playerAI_B s of
              Raises e s' \<Rightarrow> Some (Inl (e, s'))
            | Returns r s' \<Rightarrow> Some (Inr (r, s'))
            | Blocks \<Rightarrow> None
            | Continues s' \<Rightarrow> play_loop playerAI_A playerAI_B s')"
  using assms by (subst play_loop.simps) (simp add: current_board_def)

text \<open>
  When Black's process ends with exit code \<open>0\<close> or \<open>1\<close> and nothing in the queue,
  \<open>play\<close> never returns.
\<close>

lemma play_blocks_on_empty_queue:
  assumes "is_game_over (current_board s) = Inr False" and "even (st_move s)"
    and "playerAI_A (st_move s) (fst (deepcopy (st_store s) (st_board s)))
           (snd (deepcopy (st_store s) (st_board s))) = Job_Exit_1 None \<or>
         playerAI_A (st_move s) (fst (deepcopy (st_store s) (st_board s)))
           (snd (deepcopy (st_store s) (st_board s))) = Job_Exit_0 None"
  shows "play_loop playerAI_A playerAI_B s = None"
proof -
  from assms(3) have "black_turn playerAI_A (s\<lparr>st_color := Some Black\<rparr>) = Blocks"
    using black_turn_blocks [of playerAI_A "s\<lparr>st_color := Some Black\<rparr>"] by simp
  with assms(2) have "play_turn playerAI_A playerAI_B s = Blocks"
    by (simp add: play_turn_black)
  with play_loop_step [OF assms(1)] show ?thesis by simp
qed




text \<open>
  C10.  Called on a board on which \<open>is_game_over\<close> is already true, \<open>play\<close> returns
  \<open>False\<close> whatever the agents are, with the store, so the board, as it was given and
  no call of \<open>make_move\<close>.
\<close>

theorem play_game_over_at_start:
  assumes "is_game_over (board_at h board) = Inr True"
  shows "play playerAI_A playerAI_B h board = Some (Inr (Won False, start_state h board)) \<and>
         st_store (start_state h board) = h \<and> st_board (start_state h board) = board \<and>
         invocations (start_state h board) = 0"
proof -
  have "play_loop playerAI_A playerAI_B (start_state h board) =
          Some (Inr (Won False, start_state h board))"
    by (subst play_loop.simps) (simp add: start_state_def assms)
  then show ?thesis by (simp add: play_def start_state_def)
qed

theorem play_game_over_at_start_witness:
  "is_game_over (board_at won_store 0) = Inr True \<and>
   play timeout_black idle_white won_store 0 =
     Some (Inr (Won False, start_state won_store 0)) \<and>
   st_store (start_state won_store 0) = won_store \<and> st_board (start_state won_store 0) = 0 \<and>
   invocations (start_state won_store 0) = 0"
proof -
  have o: "is_game_over (board_at won_store 0) = Inr True" by code_simp
  from play_game_over_at_start [OF o, of timeout_black idle_white] o show ?thesis by simp
qed

end
